theory Spec2Isabelle
  imports Main "HOL-Library.Sublist"
begin

section \<open>Strings, arrays and objects as the router uses them\<close>

text \<open>
  A JavaScript string is modelled by the list of bytes of its UTF-8 encoding, one
  \<^typ>\<open>char\<close> per byte. The separators the router splits on (\<open>/\<close>, \<open>?\<close>, \<open>&\<close>, \<open>=\<close>)
  are ASCII, so splitting, emptiness tests and string equality agree with the UTF-16
  strings of the source. A string with an unpaired surrogate has no UTF-8 encoding; a
  byte list that is not well-formed UTF-8 stands for such a string, and \<open>encodeURI\<close>
  throws on it as it throws on them.
\<close>

text \<open>
  \<open>String.prototype.split\<close> with a one-character separator and no limit: the result
  always has at least one element, and the empty string gives one empty piece.
\<close>

fun js_split :: "char \<Rightarrow> string \<Rightarrow> string list" where
  "js_split sep [] = [[]]"
| "js_split sep (c # cs) =
     (if c = sep then [] # js_split sep cs
      else (case js_split sep cs of
              [] \<Rightarrow> [[c]]
            | w # ws \<Rightarrow> (c # w) # ws))"

text \<open>
  \<open>s.split(sep, limit)\<close> splits at every separator and keeps the first \<open>limit\<close>
  pieces; the text after the last kept piece is dropped.
\<close>

definition js_split_limit :: "char \<Rightarrow> string \<Rightarrow> nat \<Rightarrow> string list" where
  "js_split_limit sep s limit = take limit (js_split sep s)"

text \<open>\<open>xs[i] || ''\<close>: a missing element (\<open>undefined\<close>) and the empty string both give \<open>''\<close>.\<close>

definition item_or_empty :: "string list \<Rightarrow> nat \<Rightarrow> string" where
  "item_or_empty xs i = (if i < length xs then xs ! i else [])"

text \<open>
  \<open>path.split('/').filter(component => component.length !== 0)\<close>, used by the
  \<open>PathHandler\<close> constructor on its pattern and by \<open>Router.route\<close> on the path of a
  navigation.
\<close>

definition path_components :: "string \<Rightarrow> string list" where
  "path_components path = filter (\<lambda>component. length component \<noteq> 0) (js_split CHR ''/'' path)"

text \<open>Values that validators produce and callbacks receive.\<close>

datatype jsval = JUndefined | JString string | JNumber int | JArray "jsval list"

text \<open>A plain object: its own properties by name.\<close>

type_synonym obj = "string \<rightharpoonup> jsval"

definition get_property :: "obj \<Rightarrow> string \<Rightarrow> jsval" where
  "get_property ob k = (case ob k of None \<Rightarrow> JUndefined | Some v \<Rightarrow> v)"

text \<open>\<open>Object.assign(target, ...sources)\<close>: later sources override earlier properties.\<close>

definition Object_assign :: "obj \<Rightarrow> obj list \<Rightarrow> obj" where
  "Object_assign target sources = foldl (++) target sources"

datatype error = ExpectedOneValidator nat | URIError

section \<open>The validator contract\<close>

text \<open>
  A validator object maps field names to checks; a check returns the validated, possibly
  converted value or fails. The list holds the object's properties in enumeration order.
\<close>

type_synonym validator = "(string \<times> (jsval \<Rightarrow> jsval option)) list"

text \<open>\<open>keysOf\<close> (src/lib/utils/index.ts): the keys a \<open>for ... in\<close> loop enumerates.\<close>

definition keysOf :: "validator \<Rightarrow> string list" where
  "keysOf arg = map fst arg"

text \<open>
  Modelled from the spec: the package \<open>typed-validation\<close> (\<open>validate\<close>, \<open>conformsTo\<close>,
  \<open>isArray\<close>, \<open>eachItem\<close>, \<open>isString\<close>) is a dependency whose code is not among the
  sources. The spec's validator contract: given a named-field-shaped input, a validator
  returns either a success carrying a typed, possibly transformed value, or a failure;
  in array mode each element is validated to be a plain string before the whole-array
  validator runs. \<open>validate_conformsTo v ob\<close> stands for \<open>validate(ob, conformsTo(v))\<close>:
  every field of \<open>v\<close> is checked on the same-named property of \<open>ob\<close>, and the result
  object carries the checked values under the same names.
\<close>

fun validate_conformsTo :: "validator \<Rightarrow> obj \<Rightarrow> obj option" where
  "validate_conformsTo [] ob = Some Map.empty"
| "validate_conformsTo ((k, check) # rest) ob =
     (case check (get_property ob k) of
        None \<Rightarrow> None
      | Some v \<Rightarrow>
          (case validate_conformsTo rest ob of
             None \<Rightarrow> None
           | Some r \<Rightarrow> Some (r(k \<mapsto> v))))"

text \<open>
  Modelled from the spec: \<open>isString()\<close> of the same package accepts a plain string and
  returns it.
\<close>

definition isString :: "jsval \<Rightarrow> jsval option" where
  "isString arg = (case arg of JString s \<Rightarrow> Some (JString s) | _ \<Rightarrow> None)"

text \<open>
  Modelled from the spec: \<open>eachItem(assertion, next)\<close> of the same package validates
  every element of an array with \<open>assertion\<close> and, when all succeed, hands the array of
  the validated elements to \<open>next\<close>; \<open>isArray(next)\<close> accepts an array and hands it to
  \<open>next\<close>.
\<close>

fun each_item :: "(jsval \<Rightarrow> jsval option) \<Rightarrow> jsval list \<Rightarrow> jsval list option" where
  "each_item assertion [] = Some []"
| "each_item assertion (x # xs) =
     (case assertion x of
        None \<Rightarrow> None
      | Some y \<Rightarrow> (case each_item assertion xs of None \<Rightarrow> None | Some ys \<Rightarrow> Some (y # ys)))"

definition eachItem :: "(jsval \<Rightarrow> jsval option) \<Rightarrow> (jsval \<Rightarrow> jsval option) \<Rightarrow> jsval list \<Rightarrow> jsval option" where
  "eachItem assertion next_check items =
     (case each_item assertion items of None \<Rightarrow> None | Some ys \<Rightarrow> next_check (JArray ys))"

definition isArray :: "(jsval list \<Rightarrow> jsval option) \<Rightarrow> jsval \<Rightarrow> jsval option" where
  "isArray next_check arg = (case arg of JArray items \<Rightarrow> next_check items | _ \<Rightarrow> None)"

text \<open>
  \<open>arrayValidator[this.key]\<close>. The key comes from \<open>keysOf\<close> of the same object, so the
  property is always present where the constructor reads it.
\<close>

definition validator_field :: "validator \<Rightarrow> string \<Rightarrow> jsval \<Rightarrow> jsval option" where
  "validator_field v key = (case map_of v key of Some check \<Rightarrow> check | None \<Rightarrow> (\<lambda>_. None))"

section \<open>The path matcher chain\<close>

text \<open>
  The classes implementing \<open>IHandler\<close> as one closed datatype. \<open>'c\<close> names the user
  callbacks. A \<open>PathHandler\<close> holds its \<open>pathComponents\<close> and \<open>next\<close>; the parameter
  handlers hold \<open>key\<close>, \<open>validator\<close> and \<open>next\<close>; a \<open>Subrouter\<close> holds its \<open>handlers\<close>;
  a \<open>CallbackHandler\<close> holds its callback and \<open>options.ignoreAdditionalPath\<close>.
\<close>

datatype 'c handler =
    PathHandler "string list" "'c handler"
  | ParamHandler string validator "'c handler"
  | MultiParamHandler string validator "'c handler"
  | Subrouter "'c handler list"
  | CallbackHandler 'c bool

subsection \<open>Constructors\<close>

definition new_PathHandler :: "string \<Rightarrow> 'c handler \<Rightarrow> 'c handler" where
  "new_PathHandler path next_handler = PathHandler (path_components path) next_handler"

text \<open>
  The constructor of \<open>BaseParamHandler\<close>: it throws unless the validator has exactly one
  key, and keeps that key.
\<close>

definition BaseParamHandler_key :: "validator \<Rightarrow> error + string" where
  "BaseParamHandler_key v =
     (let keys = keysOf v in
      if length keys \<noteq> 1 then Inl (ExpectedOneValidator (length keys))
      else Inr (keys ! 0))"

definition new_ParamHandler :: "validator \<Rightarrow> 'c handler \<Rightarrow> error + 'c handler" where
  "new_ParamHandler v next_handler =
     (case BaseParamHandler_key v of
        Inl e \<Rightarrow> Inl e
      | Inr key \<Rightarrow> Inr (ParamHandler key v next_handler))"

definition new_MultiParamHandler :: "validator \<Rightarrow> 'c handler \<Rightarrow> error + 'c handler" where
  "new_MultiParamHandler arrayValidator next_handler =
     (case BaseParamHandler_key arrayValidator of
        Inl e \<Rightarrow> Inl e
      | Inr key \<Rightarrow>
          Inr (MultiParamHandler key
                 [(key, isArray (eachItem isString (validator_field arrayValidator key)))]
                 next_handler))"

text \<open>
  \<open>options\<close> is a \<open>Partial<ICallbackHandlerOptions>\<close>: the field may be absent, and the
  default is \<open>false\<close>.
\<close>

definition new_CallbackHandler :: "'c \<Rightarrow> bool option \<Rightarrow> 'c handler" where
  "new_CallbackHandler callback options =
     CallbackHandler callback (case options of None \<Rightarrow> False | Some b \<Rightarrow> b)"

subsection \<open>Routing\<close>

text \<open>The comparison loop of \<open>PathHandler.route\<close>, run after the length check.\<close>

fun components_equal :: "string list \<Rightarrow> string list \<Rightarrow> bool" where
  "components_equal [] subpath = True"
| "components_equal (p # ps) [] = False"
| "components_equal (p # ps) (s # ss) = (if s \<noteq> p then False else components_equal ps ss)"

text \<open>
  \<open>route(nav, params, subpath)\<close> of every handler class. Each call returns the boolean
  the promise resolves to and the callbacks invoked on the way, in order, each with the
  navigation and the parameter object it received. \<open>route_handlers\<close> is the loop of
  \<open>Subrouter.route\<close> and of \<open>Router.route\<close>: the handlers in registration order, stopping
  at the first that reports \<open>true\<close>. Validators and awaited callbacks are taken to
  complete normally.
\<close>

fun route :: "'c handler \<Rightarrow> 'n \<Rightarrow> obj \<Rightarrow> string list \<Rightarrow> bool \<times> ('c \<times> 'n \<times> obj) list"
  and route_handlers :: "'c handler list \<Rightarrow> 'n \<Rightarrow> obj \<Rightarrow> string list \<Rightarrow> bool \<times> ('c \<times> 'n \<times> obj) list"
where
  "route (PathHandler pathComponents next_handler) nav params subpath =
     (if length subpath < length pathComponents then (False, [])
      else if \<not> components_equal pathComponents subpath then (False, [])
      else route next_handler nav params (drop (length pathComponents) subpath))"
| "route (ParamHandler key v next_handler) nav params subpath =
     (if length subpath = 0 then (False, [])
      else
        (let result = validate_conformsTo v (Map.empty(key \<mapsto> JString (subpath ! 0)));
             newSubpath = drop 1 subpath
         in case result of
              None \<Rightarrow> (False, [])
            | Some val \<Rightarrow> route next_handler nav (Object_assign Map.empty [params, val]) newSubpath))"
| "route (MultiParamHandler key v next_handler) nav params subpath =
     (if length subpath = 0 then (False, [])
      else
        (let result = validate_conformsTo v (Map.empty(key \<mapsto> JArray (map JString subpath)));
             newSubpath = []
         in case result of
              None \<Rightarrow> (False, [])
            | Some val \<Rightarrow> route next_handler nav (Object_assign Map.empty [params, val]) newSubpath))"
| "route (Subrouter handlers) nav params subpath = route_handlers handlers nav params subpath"
| "route (CallbackHandler callback ignoreAdditionalPath) nav params subpath =
     (if \<not> ignoreAdditionalPath \<and> length subpath \<noteq> 0 then (False, [])
      else (True, [(callback, nav, params)]))"
| "route_handlers [] nav params subpath = (False, [])"
| "route_handlers (h # hs) nav params subpath =
     (case route h nav params subpath of
        (True, calls) \<Rightarrow> (True, calls)
      | (False, calls) \<Rightarrow>
          (case route_handlers hs nav params subpath of
             (handled, calls') \<Rightarrow> (handled, calls @ calls')))"

subsection \<open>Registration\<close>

text \<open>
  \<open>BaseRouter.path\<close>, \<open>register\<close>, \<open>param\<close> and \<open>multiparam\<close> push one handler onto
  \<open>this.handlers\<close>. The three that return a new \<open>Subrouter\<close> take here, as \<open>sub\<close>, the
  handlers that the assembly code goes on to register on the returned subrouter, so
  each function gives the handler list as it stands when routing starts. \<open>param\<close> and
  \<open>multiparam\<close> throw what the handler constructor throws.
\<close>

definition BaseRouter_path :: "string \<Rightarrow> 'c handler list \<Rightarrow> 'c handler list \<Rightarrow> 'c handler list" where
  "BaseRouter_path path sub handlers = handlers @ [new_PathHandler path (Subrouter sub)]"

definition BaseRouter_register :: "'c \<Rightarrow> bool option \<Rightarrow> 'c handler list \<Rightarrow> 'c handler list" where
  "BaseRouter_register callback options handlers = handlers @ [new_CallbackHandler callback options]"

definition BaseRouter_param :: "validator \<Rightarrow> 'c handler list \<Rightarrow> 'c handler list \<Rightarrow> error + 'c handler list" where
  "BaseRouter_param v sub handlers =
     (case new_ParamHandler v (Subrouter sub) of
        Inl e \<Rightarrow> Inl e
      | Inr h \<Rightarrow> Inr (handlers @ [h]))"

definition BaseRouter_multiparam :: "validator \<Rightarrow> 'c handler list \<Rightarrow> 'c handler list \<Rightarrow> error + 'c handler list" where
  "BaseRouter_multiparam arrayValidator sub handlers =
     (case new_MultiParamHandler arrayValidator (Subrouter sub) of
        Inl e \<Rightarrow> Inl e
      | Inr h \<Rightarrow> Inr (handlers @ [h]))"

section \<open>Navigation\<close>

text \<open>
  The class \<open>Navigation\<close>. \<open>refs\<close> is the side channel the router never interprets;
  \<open>cancelled\<close> is the only field that changes after construction.
\<close>

record Navigation =
  url :: string
  path :: string
  query :: "string \<rightharpoonup> string"
  refs :: obj
  cancelled :: bool

subsection \<open>The built-ins \<open>encodeURI\<close> and \<open>decodeURIComponent\<close>\<close>

text \<open>
  The ranges allowed for the bytes that follow a leading byte of a multi-byte sequence;
  \<open>None\<close> for a byte that cannot lead one.
\<close>

definition utf8_continuation :: "nat \<Rightarrow> (nat \<times> nat) list option" where
  "utf8_continuation b =
     (if 0xC2 \<le> b \<and> b \<le> 0xDF then Some [(0x80, 0xBF)]
      else if b = 0xE0 then Some [(0xA0, 0xBF), (0x80, 0xBF)]
      else if 0xE1 \<le> b \<and> b \<le> 0xEC then Some [(0x80, 0xBF), (0x80, 0xBF)]
      else if b = 0xED then Some [(0x80, 0x9F), (0x80, 0xBF)]
      else if 0xEE \<le> b \<and> b \<le> 0xEF then Some [(0x80, 0xBF), (0x80, 0xBF)]
      else if b = 0xF0 then Some [(0x90, 0xBF), (0x80, 0xBF), (0x80, 0xBF)]
      else if 0xF1 \<le> b \<and> b \<le> 0xF3 then Some [(0x80, 0xBF), (0x80, 0xBF), (0x80, 0xBF)]
      else if b = 0xF4 then Some [(0x80, 0x8F), (0x80, 0xBF), (0x80, 0xBF)]
      else None)"

text \<open>
  Well-formed UTF-8, read byte by byte; the first argument lists the ranges of the bytes
  still owed to the sequence being read.
\<close>

fun utf8_ok :: "(nat \<times> nat) list \<Rightarrow> string \<Rightarrow> bool" where
  "utf8_ok [] [] = True"
| "utf8_ok (r # rs) [] = False"
| "utf8_ok [] (c # cs) =
     (if (of_char c :: nat) < 0x80 then utf8_ok [] cs
      else (case utf8_continuation (of_char c) of
              None \<Rightarrow> False
            | Some rs \<Rightarrow> utf8_ok rs cs))"
| "utf8_ok ((lo, hi) # rs) (c # cs) =
     (lo \<le> (of_char c :: nat) \<and> (of_char c :: nat) \<le> hi \<and> utf8_ok rs cs)"

definition utf8_wellformed :: "string \<Rightarrow> bool" where
  "utf8_wellformed s = utf8_ok [] s"

text \<open>
  \<open>encodeURI\<close> throws a \<open>URIError\<close> on a string with an unpaired surrogate. Otherwise it
  leaves unescaped the letters, the digits, the marks \<open>-_.!~*'()\<close>, the reserved
  characters \<open>;/?:@&=+$,\<close> and \<open>#\<close>, and replaces every other character by the bytes of
  its UTF-8 encoding, each written as \<open>%\<close> and two upper-case hexadecimal digits; on the
  byte strings of this model that is one escape per byte.
\<close>

definition uriAlpha :: string where
  "uriAlpha = ''ABCDEFGHIJKLMNOPQRSTUVWXYZabcdefghijklmnopqrstuvwxyz''"

definition DecimalDigit :: string where
  "DecimalDigit = ''0123456789''"

definition uriMark :: string where
  "uriMark = ''-_.!~*()'' @ [CHR 0x27]"

definition uriReserved :: string where
  "uriReserved = '';/?:@&=+$,''"

definition encodeURI_unescaped :: "char \<Rightarrow> bool" where
  "encodeURI_unescaped c =
     (c \<in> set uriAlpha \<or> c \<in> set DecimalDigit \<or> c \<in> set uriMark \<or> c \<in> set uriReserved
      \<or> c = CHR ''#'')"

definition hex_digit :: "nat \<Rightarrow> char" where
  "hex_digit n = ''0123456789ABCDEF'' ! (n mod 16)"

definition percent_escape :: "char \<Rightarrow> string" where
  "percent_escape c =
     [CHR ''%'', hex_digit ((of_char c :: nat) div 16), hex_digit ((of_char c :: nat) mod 16)]"

definition encode_char :: "char \<Rightarrow> string" where
  "encode_char c = (if encodeURI_unescaped c then [c] else percent_escape c)"

definition uri_encode :: "string \<Rightarrow> string" where
  "uri_encode s = concat (map encode_char s)"

definition encodeURI :: "string \<Rightarrow> error + string" where
  "encodeURI s = (if utf8_wellformed s then Inr (uri_encode s) else Inl URIError)"

text \<open>
  \<open>decodeURIComponent\<close> throws a \<open>URIError\<close> when a \<open>%\<close> is not followed by two
  hexadecimal digits, and when the escaped bytes from \<open>0x80\<close> up are not the UTF-8
  encoding of code points, each byte of a sequence being an escape. The string is first
  cut into literal characters and escapes, then the escaped bytes are checked against the
  table of well-formed UTF-8 byte sequences.
\<close>

definition hex_value :: "char \<Rightarrow> nat option" where
  "hex_value c =
     (let n = (of_char c :: nat) in
      if 48 \<le> n \<and> n \<le> 57 then Some (n - 48)
      else if 65 \<le> n \<and> n \<le> 70 then Some (n - 55)
      else if 97 \<le> n \<and> n \<le> 102 then Some (n - 87)
      else None)"

datatype uri_token = Literal char | Escaped nat

fun uri_tokens :: "string \<Rightarrow> uri_token list option" where
  "uri_tokens [] = Some []"
| "uri_tokens (c # cs) =
     (if c = CHR ''%'' then
        (case cs of
           h1 # h2 # rest \<Rightarrow>
             (case (hex_value h1, hex_value h2) of
                (Some a, Some b) \<Rightarrow>
                  (case uri_tokens rest of
                     None \<Rightarrow> None
                   | Some ts \<Rightarrow> Some (Escaped (16 * a + b) # ts))
              | _ \<Rightarrow> None)
         | _ \<Rightarrow> None)
      else (case uri_tokens cs of None \<Rightarrow> None | Some ts \<Rightarrow> Some (Literal c # ts)))"

text \<open>
  The escaped bytes are checked as \<open>utf8_ok\<close> checks bytes; a literal character cannot
  stand inside an escaped sequence.
\<close>

fun decode_tokens :: "(nat \<times> nat) list \<Rightarrow> uri_token list \<Rightarrow> string option" where
  "decode_tokens [] [] = Some []"
| "decode_tokens (r # rs) [] = None"
| "decode_tokens [] (Literal c # ts) =
     (case decode_tokens [] ts of None \<Rightarrow> None | Some out \<Rightarrow> Some (c # out))"
| "decode_tokens (r # rs) (Literal c # ts) = None"
| "decode_tokens [] (Escaped b # ts) =
     (if b < 0x80 then
        (case decode_tokens [] ts of None \<Rightarrow> None | Some out \<Rightarrow> Some (char_of b # out))
      else
        (case utf8_continuation b of
           None \<Rightarrow> None
         | Some rs \<Rightarrow>
             (case decode_tokens rs ts of None \<Rightarrow> None | Some out \<Rightarrow> Some (char_of b # out))))"
| "decode_tokens ((lo, hi) # rs) (Escaped b # ts) =
     (if lo \<le> b \<and> b \<le> hi then
        (case decode_tokens rs ts of None \<Rightarrow> None | Some out \<Rightarrow> Some (char_of b # out))
      else None)"

definition decodeURIComponent :: "string \<Rightarrow> error + string" where
  "decodeURIComponent s =
     (case uri_tokens s of
        None \<Rightarrow> Inl URIError
      | Some ts \<Rightarrow> (case decode_tokens [] ts of None \<Rightarrow> Inl URIError | Some out \<Rightarrow> Inr out))"

subsection \<open>\<open>Navigation.createFromUrl\<close>\<close>

text \<open>
  \<open>query[k] = v\<close> on an object literal with a string \<open>v\<close>: an own property is created
  or overwritten, except for the name \<open>__proto__\<close>, which reaches the inherited setter
  of \<open>Object.prototype\<close>; that setter ignores a string and the object stays as it was.
\<close>

definition set_property :: "(string \<rightharpoonup> string) \<Rightarrow> string \<Rightarrow> string \<Rightarrow> (string \<rightharpoonup> string)" where
  "set_property q k v = (if k = ''__proto__'' then q else q(k \<mapsto> v))"

text \<open>The loop over \<open>queryPairs\<close>; a throwing \<open>decodeURIComponent\<close> ends it.\<close>

fun query_loop :: "string list \<Rightarrow> (string \<rightharpoonup> string) \<Rightarrow> error + (string \<rightharpoonup> string)" where
  "query_loop [] q = Inr q"
| "query_loop (queryPair # queryPairs) q =
     (let splitPair = js_split_limit CHR ''='' queryPair 2;
          key = item_or_empty splitPair 0;
          val = item_or_empty splitPair 1
      in case decodeURIComponent key of
           Inl e \<Rightarrow> Inl e
         | Inr k \<Rightarrow>
             (case decodeURIComponent val of
                Inl e \<Rightarrow> Inl e
              | Inr v \<Rightarrow> query_loop queryPairs (set_property q k v)))"

definition createFromUrl :: "string \<Rightarrow> error + Navigation" where
  "createFromUrl raw =
     (case encodeURI raw of
        Inl e \<Rightarrow> Inl e
      | Inr encoded \<Rightarrow>
          (let url = encoded in
           if CHR ''?'' \<in> set url then
             (let parts = js_split_limit CHR ''?'' url 2;
                  path = item_or_empty parts 0;
                  queryString = item_or_empty parts 1;
                  queryPairs = js_split CHR ''&'' queryString
              in case query_loop queryPairs Map.empty of
                   Inl e \<Rightarrow> Inl e
                 | Inr q \<Rightarrow>
                     Inr \<lparr>url = url, path = path, query = q, refs = Map.empty,
                          cancelled = False\<rparr>)
           else Inr \<lparr>url = url, path = url, query = Map.empty, refs = Map.empty,
                     cancelled = False\<rparr>))"

text \<open>
  \<open>Router.route(nav)\<close>: the path of the navigation is cut into its non-empty components
  once, and the root handlers are tried in order, each with an empty parameter object.
\<close>

definition Router_route :: "'c handler list \<Rightarrow> Navigation \<Rightarrow> bool \<times> ('c \<times> Navigation \<times> obj) list" where
  "Router_route handlers nav =
     (let pathComponents = path_components (path nav)
      in route_handlers handlers nav Map.empty pathComponents)"

subsection \<open>Notions for the properties of \<open>createFromUrl\<close>\<close>

text \<open>
  Two ways of cutting a string at a separator, to state what \<open>createFromUrl\<close> returns:
  the text before the first occurrence of the separator (the whole string when there is
  none), and the text after it (empty when there is none).
\<close>

definition before_first :: "char \<Rightarrow> string \<Rightarrow> string" where
  "before_first sep s = takeWhile (\<lambda>c. c \<noteq> sep) s"

definition after_first :: "char \<Rightarrow> string \<Rightarrow> string" where
  "after_first sep s = drop 1 (dropWhile (\<lambda>c. c \<noteq> sep) s)"

text \<open>
  What \<open>uri_tokens\<close> reads back from the encoding of one character, and the property of
  the ranges of \<open>utf8_continuation\<close> that no continuation byte is ASCII.
\<close>

definition uri_token_of :: "char \<Rightarrow> uri_token" where
  "uri_token_of c = (if encodeURI_unescaped c then Literal c else Escaped (of_char c))"

definition ranges_high :: "(nat \<times> nat) list \<Rightarrow> bool" where
  "ranges_high rs = (\<forall>(lo, hi)\<in>set rs. 0x80 \<le> lo)"

text \<open>A separator: a character that \<open>encodeURI\<close> leaves alone and that no escape contains.\<close>

definition separator :: "char \<Rightarrow> bool" where
  "separator sep = (encodeURI_unescaped sep \<and> sep \<notin> set ''0123456789ABCDEF'')"

text \<open>The pairs of a query string, as the texts of the input: key and value of each.\<close>

definition raw_pair :: "string \<Rightarrow> string \<times> string" where
  "raw_pair p = (before_first CHR ''='' p, before_first CHR ''='' (after_first CHR ''='' p))"

section \<open>The navigation sequencer\<close>

text \<open>
  The mutable fields of \<open>Router\<close>. \<open>Navigation\<close> objects are shared by reference (the
  router keeps one in \<open>nextNav\<close> while its caller is suspended, and sets its \<open>cancelled\<close>
  flag from another call), so they live in a store, \<open>navs\<close>, and are named by their
  index. \<open>navigatedEvent\<close> lists the navigations emitted to the listeners and
  \<open>browserApi_setUrl\<close> the navigations handed to the history adapter, oldest first.
\<close>

record Router_state =
  navs :: "Navigation list"
  nextNav :: "nat option"
  currentNav :: "nat option"
  navigatedEvent :: "nat list"
  browserApi_setUrl :: "nat list"

definition Router_new :: Router_state where
  "Router_new = \<lparr>navs = [], nextNav = None, currentNav = None, navigatedEvent = [],
                 browserApi_setUrl = []\<rparr>"

text \<open>The argument of \<open>navigate\<close>: a URL string, or a \<open>Navigation\<close> object that exists already.\<close>

datatype navigate_arg = Url string | Nav nat

text \<open>
  \<open>navigate\<close> is an \<open>async\<close> function with a single suspension point,
  \<open>await this.route(nav)\<close>. \<open>navigate_begin\<close> is the part that runs synchronously inside
  the call: it returns \<open>false\<close> at once when no handler is registered, throws what
  \<open>createFromUrl\<close> throws, and otherwise is left awaiting the route walk of the
  navigation it made pending. Other calls of \<open>navigate\<close> can run while it is suspended.
\<close>

datatype navigate_started = Returned bool | Thrown error | Awaiting nat

definition cancel_pending :: "Router_state \<Rightarrow> Router_state" where
  "cancel_pending s =
     (case nextNav s of
        None \<Rightarrow> s
      | Some p \<Rightarrow> s\<lparr>navs := (navs s)[p := (navs s ! p)\<lparr>cancelled := True\<rparr>]\<rparr>)"

definition navigate_begin :: "'c handler list \<Rightarrow> navigate_arg \<Rightarrow> Router_state \<Rightarrow> navigate_started \<times> Router_state" where
  "navigate_begin handlers arg s =
     (if length handlers = 0 then (Returned False, s)
      else
        (let s1 = cancel_pending s in
         case arg of
           Url u \<Rightarrow>
             (case createFromUrl u of
                Inl e \<Rightarrow> (Thrown e, s1)
              | Inr nav \<Rightarrow>
                  (Awaiting (length (navs s1)),
                   s1\<lparr>navs := navs s1 @ [nav], nextNav := Some (length (navs s1))\<rparr>))
         | Nav a \<Rightarrow> (Awaiting a, s1\<lparr>nextNav := Some a\<rparr>)))"

text \<open>\<open>setCurrentNav(nav)\<close> followed by \<open>this.browserApi.setUrl(nav)\<close>.\<close>

definition setCurrentNav :: "nat \<Rightarrow> Router_state \<Rightarrow> Router_state" where
  "setCurrentNav a s = s\<lparr>currentNav := Some a, navigatedEvent := navigatedEvent s @ [a]\<rparr>"

definition browserApi_setUrl_call :: "nat \<Rightarrow> Router_state \<Rightarrow> Router_state" where
  "browserApi_setUrl_call a s = s\<lparr>browserApi_setUrl := browserApi_setUrl s @ [a]\<rparr>"

text \<open>
  \<open>navigate_end\<close> is the part of \<open>navigate\<close> that runs when the route walk of navigation
  \<open>a\<close> has settled: \<open>handled\<close> is what the walk resolved to, the pending marker is
  cleared, the navigation is committed if it was handled and is not cancelled, and the
  promise resolves to the returned boolean.
\<close>

definition navigate_end :: "'c handler list \<Rightarrow> nat \<Rightarrow> Router_state \<Rightarrow> bool \<times> Router_state" where
  "navigate_end handlers a s =
     (let handled = fst (Router_route handlers (navs s ! a));
          s1 = s\<lparr>nextNav := None\<rparr>
      in if handled \<and> \<not> cancelled (navs s1 ! a)
         then (handled, browserApi_setUrl_call a (setCurrentNav a s1))
         else (handled, s1))"


text \<open>
  A schedule: calls of \<open>navigate\<close> and resumptions of suspended calls, in the order in
  which the single thread runs them.
\<close>

datatype event = Call navigate_arg | Resume nat

fun run :: "'c handler list \<Rightarrow> event list \<Rightarrow> Router_state \<Rightarrow> Router_state" where
  "run handlers [] s = s"
| "run handlers (Call arg # es) s = run handlers es (snd (navigate_begin handlers arg s))"
| "run handlers (Resume a # es) s = run handlers es (snd (navigate_end handlers a s))"

section \<open>Routing over a store of objects and arrays\<close>

text \<open>
  \<open>params\<close> and \<open>subpath\<close> are references: the same parameter object and the same
  array of segments are handed to every handler a router tries. To state what a handler
  may have done to them, the walk is modelled a second time over a store in which every
  object and array has an address; \<open>{}\<close>, \<open>slice\<close> and \<open>[]\<close> allocate, and \<open>Object.assign\<close>
  and \<open>obj[key] = ...\<close> write to the address of their target. A callback receives the
  address of its parameter object and may change the store in any way (\<open>run_callback\<close>);
  validators only read the candidate they are given and build their result.
\<close>

datatype cell = ObjCell obj | ArrCell "string list"

type_synonym store = "cell list"

definition alloc :: "cell \<Rightarrow> store \<Rightarrow> nat \<times> store" where
  "alloc c \<sigma> = (length \<sigma>, \<sigma> @ [c])"

definition obj_at :: "store \<Rightarrow> nat \<Rightarrow> obj" where
  "obj_at \<sigma> a = (case \<sigma> ! a of ObjCell ob \<Rightarrow> ob | ArrCell xs \<Rightarrow> Map.empty)"

definition arr_at :: "store \<Rightarrow> nat \<Rightarrow> string list" where
  "arr_at \<sigma> a = (case \<sigma> ! a of ArrCell xs \<Rightarrow> xs | ObjCell ob \<Rightarrow> [])"

fun route_st ::
    "('c \<Rightarrow> nat \<Rightarrow> store \<Rightarrow> store) \<Rightarrow> 'c handler \<Rightarrow> 'n \<Rightarrow> nat \<Rightarrow> nat \<Rightarrow> store
      \<Rightarrow> bool \<times> ('c \<times> 'n \<times> obj) list \<times> store"
  and route_handlers_st ::
    "('c \<Rightarrow> nat \<Rightarrow> store \<Rightarrow> store) \<Rightarrow> 'c handler list \<Rightarrow> 'n \<Rightarrow> nat \<Rightarrow> nat \<Rightarrow> store
      \<Rightarrow> bool \<times> ('c \<times> 'n \<times> obj) list \<times> store"
where
  "route_st run_callback (PathHandler pathComponents next_handler) nav params subpath \<sigma> =
     (let sub = arr_at \<sigma> subpath in
      if length sub < length pathComponents then (False, [], \<sigma>)
      else if \<not> components_equal pathComponents sub then (False, [], \<sigma>)
      else
        (case alloc (ArrCell (drop (length pathComponents) sub)) \<sigma> of
           (sliced, \<sigma>1) \<Rightarrow> route_st run_callback next_handler nav params sliced \<sigma>1))"
| "route_st run_callback (ParamHandler key v next_handler) nav params subpath \<sigma> =
     (let sub = arr_at \<sigma> subpath in
      if length sub = 0 then (False, [], \<sigma>)
      else
        (case alloc (ObjCell Map.empty) \<sigma> of
           (ob, \<sigma>1) \<Rightarrow>
             (let \<sigma>2 = \<sigma>1[ob := ObjCell ((obj_at \<sigma>1 ob)(key \<mapsto> JString (sub ! 0)))];
                  result = validate_conformsTo v (obj_at \<sigma>2 ob)
              in case alloc (ArrCell (drop 1 sub)) \<sigma>2 of
                   (newSubpath, \<sigma>3) \<Rightarrow>
                     (case result of
                        None \<Rightarrow> (False, [], \<sigma>3)
                      | Some val \<Rightarrow>
                          (case alloc (ObjCell Map.empty) \<sigma>3 of
                             (target, \<sigma>4) \<Rightarrow>
                               (let \<sigma>5 = \<sigma>4[target := ObjCell (Object_assign (obj_at \<sigma>4 target)
                                                                  [obj_at \<sigma>4 params, val])]
                                in route_st run_callback next_handler nav target newSubpath \<sigma>5))))))"
| "route_st run_callback (MultiParamHandler key v next_handler) nav params subpath \<sigma> =
     (let sub = arr_at \<sigma> subpath in
      if length sub = 0 then (False, [], \<sigma>)
      else
        (case alloc (ObjCell Map.empty) \<sigma> of
           (ob, \<sigma>1) \<Rightarrow>
             (let \<sigma>2 = \<sigma>1[ob := ObjCell ((obj_at \<sigma>1 ob)(key \<mapsto> JArray (map JString sub)))];
                  result = validate_conformsTo v (obj_at \<sigma>2 ob)
              in case alloc (ArrCell []) \<sigma>2 of
                   (newSubpath, \<sigma>3) \<Rightarrow>
                     (case result of
                        None \<Rightarrow> (False, [], \<sigma>3)
                      | Some val \<Rightarrow>
                          (case alloc (ObjCell Map.empty) \<sigma>3 of
                             (target, \<sigma>4) \<Rightarrow>
                               (let \<sigma>5 = \<sigma>4[target := ObjCell (Object_assign (obj_at \<sigma>4 target)
                                                                  [obj_at \<sigma>4 params, val])]
                                in route_st run_callback next_handler nav target newSubpath \<sigma>5))))))"
| "route_st run_callback (Subrouter handlers) nav params subpath \<sigma> =
     route_handlers_st run_callback handlers nav params subpath \<sigma>"
| "route_st run_callback (CallbackHandler callback ignoreAdditionalPath) nav params subpath \<sigma> =
     (if \<not> ignoreAdditionalPath \<and> length (arr_at \<sigma> subpath) \<noteq> 0 then (False, [], \<sigma>)
      else (True, [(callback, nav, obj_at \<sigma> params)], run_callback callback params \<sigma>))"
| "route_handlers_st run_callback [] nav params subpath \<sigma> = (False, [], \<sigma>)"
| "route_handlers_st run_callback (h # hs) nav params subpath \<sigma> =
     (case route_st run_callback h nav params subpath \<sigma> of
        (True, calls, \<sigma>') \<Rightarrow> (True, calls, \<sigma>')
      | (False, calls, \<sigma>') \<Rightarrow>
          (case route_handlers_st run_callback hs nav params subpath \<sigma>' of
             (handled, calls', \<sigma>'') \<Rightarrow> (handled, calls @ calls', \<sigma>'')))"

text \<open>
  How a walk over the store relates to a walk over values: \<open>r\<close> is the result of the
  former, \<open>p\<close> of the latter; they report the same boolean and the same calls, and a
  walk that fails leaves every cell of the store \<open>\<sigma>\<close> it started from as it was.
\<close>

definition agrees :: "bool \<times> 'a list \<times> store \<Rightarrow> bool \<times> 'a list \<Rightarrow> store \<Rightarrow> bool" where
  "agrees r p \<sigma> = ((fst r, fst (snd r)) = p \<and> (\<not> fst r \<longrightarrow> prefix \<sigma> (snd (snd r))))"

section \<open>Example validators and routers\<close>

text \<open>
  An \<open>idValidator\<close> that accepts the strings of decimal digits and converts them to the
  number they denote, and a validator for segment arrays that accepts every array.
\<close>

definition numericString :: "jsval \<Rightarrow> jsval option" where
  "numericString arg =
     (case arg of
        JString s \<Rightarrow>
          (if s \<noteq> [] \<and> list_all (\<lambda>c. c \<in> set DecimalDigit) s
           then Some (JNumber (int (foldl (\<lambda>n c. 10 * n + ((of_char c :: nat) - 48)) 0 s)))
           else None)
      | _ \<Rightarrow> None)"

definition anySegments :: "jsval \<Rightarrow> jsval option" where
  "anySegments arg = Some arg"

text \<open>
  Three sibling entries: a parameter followed by the literal \<open>x\<close>, the literal \<open>a\<close> with a
  callback that ignores additional path, and a catch-all callback.
\<close>

definition param_then_x :: "nat handler" where
  "param_then_x =
     ParamHandler ''id'' [(''id'', isString)]
       (Subrouter [PathHandler [''x''] (Subrouter [CallbackHandler 1 False])])"

definition literal_a :: "nat handler" where
  "literal_a = PathHandler [''a''] (Subrouter [CallbackHandler 2 True])"

definition catch_all :: "nat handler" where
  "catch_all = CallbackHandler 3 True"

text \<open>\<open>router.path('slow').register(cb1); router.path('fast').register(cb2)\<close>.\<close>

definition slow_fast_router :: "nat handler list" where
  "slow_fast_router =
     BaseRouter_path ''fast'' (BaseRouter_register 2 None [])
       (BaseRouter_path ''slow'' (BaseRouter_register 1 None []) [])"

definition nav_of_path :: "string \<Rightarrow> Navigation" where
  "nav_of_path p = \<lparr>url = p, path = p, query = Map.empty, refs = Map.empty, cancelled = False\<rparr>"

section \<open>Properties of the matcher chain\<close>

lemma route_fail_no_calls:
  fixes h :: "'c handler" and hs :: "'c handler list" and nav :: 'n and nav' :: 'n
  shows "\<not> fst (route h nav ps sub) \<Longrightarrow> snd (route h nav ps sub) = []"
  and "\<not> fst (route_handlers hs nav' ps' sub') \<Longrightarrow> snd (route_handlers hs nav' ps' sub') = []"
  by (induction h nav ps sub and hs nav' ps' sub' rule: route_route_handlers.induct)
     (auto split: if_splits option.splits prod.splits bool.splits simp: Let_def)

lemma route_failed: "\<not> fst (route h nav ps sub) \<Longrightarrow> route h nav ps sub = (False, [])"
  using route_fail_no_calls(1)[of h nav ps sub] by (cases "route h nav ps sub") auto

lemma route_handlers_skip:
  "\<not> fst (route h nav ps sub) \<Longrightarrow> route_handlers (h # hs) nav ps sub = route_handlers hs nav ps sub"
  by (simp add: route_failed split: prod.splits)

lemma route_handlers_hit:
  "fst (route h nav ps sub) \<Longrightarrow> route_handlers (h # hs) nav ps sub = route h nav ps sub"
  by (cases "route h nav ps sub") (auto split: bool.splits)

lemma route_handlers_skip_all:
  "\<forall>h\<in>set pre. \<not> fst (route h nav ps sub) \<Longrightarrow>
     route_handlers (pre @ hs) nav ps sub = route_handlers hs nav ps sub"
  by (induction pre) (simp_all add: route_handlers_skip del: route_handlers.simps)

lemma js_split_nonempty: "js_split sep s \<noteq> []"
  by (induction s) (auto split: list.splits)

lemma components_equal_take:
  "length pcs \<le> length sub \<Longrightarrow> components_equal pcs sub = (take (length pcs) sub = pcs)"
  by (induction pcs sub rule: components_equal.induct) auto



text \<open>
  C3. The loops of \<open>Subrouter.route\<close> and \<open>Router.route\<close> try the entries in registration
  order. When every entry before \<open>h\<close> fails and \<open>h\<close> succeeds, the result and the
  callbacks invoked are those of \<open>h\<close> alone, whatever entries follow it; when every entry
  fails the walk fails with no callback invoked. An entry whose parameter validator
  accepts the segment but whose continuation fails has failed as a whole, and the
  entries after it are tried with the same parameter object and the same segments.
\<close>

theorem first_match_wins:
  fixes h :: "'c handler" and nav :: 'n and rnav :: Navigation and r :: "'c handler"
  shows
  "((\<forall>e\<in>set pre. \<not> fst (route e nav ps sub)) \<and> fst (route h nav ps sub) \<longrightarrow>
      route_handlers (pre @ h # post) nav ps sub = route h nav ps sub)
   \<and> ((\<forall>e\<in>set pre. \<not> fst (route e nav ps sub)) \<longrightarrow>
      route_handlers pre nav ps sub = (False, []))
   \<and> ((\<forall>e\<in>set rpre. \<not> fst (route e rnav Map.empty (path_components (path rnav))))
        \<and> fst (route r rnav Map.empty (path_components (path rnav))) \<longrightarrow>
      Router_route (rpre @ r # rpost) rnav = route r rnav Map.empty (path_components (path rnav)))
   \<and> ((\<forall>e\<in>set rpre. \<not> fst (route e rnav Map.empty (path_components (path rnav)))) \<longrightarrow>
      Router_route rpre rnav = (False, []))
   \<and> (validate_conformsTo v (Map.empty(key \<mapsto> JString s)) = Some val
        \<and> \<not> fst (route nxt nav (Object_assign Map.empty [ps, val]) rest) \<longrightarrow>
      route (ParamHandler key v nxt) nav ps (s # rest) = (False, [])
      \<and> route_handlers (ParamHandler key v nxt # hs) nav ps (s # rest)
          = route_handlers hs nav ps (s # rest))"
proof -
  have skip: "\<And>(es :: 'c handler list) tl (n :: 'n) p sp. \<forall>e\<in>set es. \<not> fst (route e n p sp) \<Longrightarrow>
      route_handlers (es @ tl) n p sp = route_handlers tl n p sp"
    by (rule route_handlers_skip_all)
  have skipR: "\<And>(es :: 'c handler list) tl p sp. \<forall>e\<in>set es. \<not> fst (route e rnav p sp) \<Longrightarrow>
      route_handlers (es @ tl) rnav p sp = route_handlers tl rnav p sp"
    by (rule route_handlers_skip_all)
  have a: "(\<forall>e\<in>set pre. \<not> fst (route e nav ps sub)) \<and> fst (route h nav ps sub) \<longrightarrow>
      route_handlers (pre @ h # post) nav ps sub = route h nav ps sub"
    by (simp add: skip route_handlers_hit del: route_handlers.simps)
  have b: "(\<forall>e\<in>set pre. \<not> fst (route e nav ps sub)) \<longrightarrow> route_handlers pre nav ps sub = (False, [])"
    using skip[where es=pre and tl="[]"] by simp
  have c: "(\<forall>e\<in>set rpre. \<not> fst (route e rnav Map.empty (path_components (path rnav))))
        \<and> fst (route r rnav Map.empty (path_components (path rnav))) \<longrightarrow>
      Router_route (rpre @ r # rpost) rnav = route r rnav Map.empty (path_components (path rnav))"
    by (simp add: Router_route_def skipR route_handlers_hit del: route_handlers.simps)
  have d: "(\<forall>e\<in>set rpre. \<not> fst (route e rnav Map.empty (path_components (path rnav)))) \<longrightarrow>
      Router_route rpre rnav = (False, [])"
    using skipR[where es=rpre and tl="[]"] by (simp add: Router_route_def)
  have e: "validate_conformsTo v (Map.empty(key \<mapsto> JString s)) = Some val
        \<and> \<not> fst (route nxt nav (Object_assign Map.empty [ps, val]) rest) \<longrightarrow>
      route (ParamHandler key v nxt) nav ps (s # rest) = (False, [])
      \<and> route_handlers (ParamHandler key v nxt # hs) nav ps (s # rest)
          = route_handlers hs nav ps (s # rest)"
  proof (intro impI, elim conjE)
    assume ok: "validate_conformsTo v (Map.empty(key \<mapsto> JString s)) = Some val"
      and fail: "\<not> fst (route nxt nav (Object_assign Map.empty [ps, val]) rest)"
    have "route (ParamHandler key v nxt) nav ps (s # rest)
            = route nxt nav (Object_assign Map.empty [ps, val]) rest"
      using ok by simp
    with fail have f: "route (ParamHandler key v nxt) nav ps (s # rest) = (False, [])"
      by (simp add: route_failed)
    then show "route (ParamHandler key v nxt) nav ps (s # rest) = (False, [])
      \<and> route_handlers (ParamHandler key v nxt # hs) nav ps (s # rest)
          = route_handlers hs nav ps (s # rest)"
      by (simp del: route.simps)
  qed
  from a b c d e show ?thesis by blast
qed

theorem first_match_wins_witness:
  "route_handlers [param_then_x, literal_a, catch_all] (0::nat) Map.empty [''a'', ''b'']
     = (True, [(2, 0, Map.empty)])
   \<and> route_handlers [param_then_x] (0::nat) Map.empty [''a'', ''b''] = (False, [])
   \<and> Router_route [param_then_x, literal_a, catch_all] (nav_of_path ''/a/b'')
     = (True, [(2, nav_of_path ''/a/b'', Map.empty)])
   \<and> Router_route [param_then_x] (nav_of_path ''/a/b'') = (False, [])
   \<and> route param_then_x (0::nat) Map.empty [''a'', ''b''] = (False, [])"
proof -
  define nxt :: "nat handler"
    where "nxt = Subrouter [PathHandler [''x''] (Subrouter [CallbackHandler 1 False])]"
  define val :: obj where "val = Map.empty(''id'' \<mapsto> JString ''a'')"
  have pe: "ParamHandler ''id'' [(''id'', isString)] nxt = param_then_x"
    by (simp add: nxt_def param_then_x_def)
  have f: "\<not> fst (route param_then_x (0::nat) Map.empty [''a'', ''b''])"
    "\<not> fst (route param_then_x (nav_of_path ''/a/b'') Map.empty [''a'', ''b''])"
    by (simp_all add: param_then_x_def isString_def get_property_def)
  have g: "route literal_a (0::nat) Map.empty [''a'', ''b''] = (True, [(2, 0, Map.empty)])"
    "route literal_a (nav_of_path ''/a/b'') Map.empty [''a'', ''b'']
       = (True, [(2, nav_of_path ''/a/b'', Map.empty)])"
    by (simp_all add: literal_a_def)
  have v: "validate_conformsTo [(''id'', isString)] (Map.empty(''id'' \<mapsto> JString ''a'')) = Some val"
    by (simp add: isString_def get_property_def val_def)
  have c: "\<not> fst (route nxt (0::nat) (Object_assign Map.empty [Map.empty, val]) [''b''])"
    by (simp add: nxt_def)
  have p: "path_components (path (nav_of_path ''/a/b'')) = [''a'', ''b'']"
    by (simp add: nav_of_path_def path_components_def)
  note T = first_match_wins[where pre="[param_then_x]" and h=literal_a and post="[catch_all]"
        and nav="0::nat" and ps=Map.empty and sub="[''a'', ''b'']"
        and rpre="[param_then_x]" and r=literal_a and rpost="[catch_all]"
        and rnav="nav_of_path ''/a/b''"
        and v="[(''id'', isString)]" and key="''id''" and s="''a''" and rest="[''b'']"
        and val=val and nxt=nxt and hs="[literal_a, catch_all]", unfolded pe p]
  have hl: "route_handlers [literal_a, catch_all] (0::nat) Map.empty [''a'', ''b'']
      = (True, [(2, 0, Map.empty)])"
    by (simp add: literal_a_def)
  from T f g v c hl show ?thesis
    by (simp del: route.simps route_handlers.simps)
qed




lemma js_split_snoc_sep: "js_split sep (s @ [sep]) = js_split sep s @ [[]]"
  by (induction s) (auto split: list.splits simp: js_split_nonempty)

lemma path_components_trailing: "path_components (p @ replicate n CHR ''/'') = path_components p"
proof (induction n)
  case 0
  then show ?case by simp
next
  case (Suc n)
  have e: "p @ replicate (Suc n) CHR ''/'' = (p @ replicate n CHR ''/'') @ [CHR ''/'']"
    by (simp add: replicate_append_same)
  have "path_components (p @ replicate (Suc n) CHR ''/'') = path_components (p @ replicate n CHR ''/'')"
    unfolding e path_components_def js_split_snoc_sep by simp
  with Suc show ?case by simp
qed

lemma path_then_callback:
  "Router_route (BaseRouter_path pat (BaseRouter_register cb options []) []) nav =
     (if take (length (path_components pat)) (path_components (path nav)) = path_components pat
         \<and> length (path_components pat) \<le> length (path_components (path nav))
         \<and> (length (path_components (path nav)) = length (path_components pat) \<or> options = Some True)
      then (True, [(cb, nav, Map.empty)]) else (False, []))"
proof (cases "length (path_components (path nav)) < length (path_components pat)")
  case True
  then have "take (length (path_components pat)) (path_components (path nav)) \<noteq> path_components pat"
    by (metis length_take min.strict_order_iff nat_neq_iff min.commute)
  with True show ?thesis
    by (simp add: Router_route_def BaseRouter_path_def BaseRouter_register_def new_PathHandler_def Let_def)
next
  case False
  then show ?thesis
    by (cases options)
       (auto simp: Router_route_def BaseRouter_path_def BaseRouter_register_def new_PathHandler_def
          new_CallbackHandler_def components_equal_take Let_def)
qed

text \<open>
  C4. Segmentation splits the path on \<open>/\<close> and drops the empty pieces, so \<open>/a//b/\<close>
  gives \<open>a\<close>, \<open>b\<close>. For the router built by \<open>path('a/b').register(cb, options)\<close>, a
  navigation matches, and \<open>cb\<close> is invoked with empty parameters, exactly when the first
  two segments of its path are \<open>a\<close> and \<open>b\<close> (string equality, hence case-sensitive) and
  either nothing follows them or \<open>ignoreAdditionalPath\<close> is \<open>true\<close>. Trailing slashes do
  not change the segments.
\<close>

theorem literal_path_match:
  "path_components ''/a//b/'' = [''a'', ''b'']
   \<and> Router_route (BaseRouter_path ''a/b'' (BaseRouter_register cb options []) []) nav
       = (if take 2 (path_components (path nav)) = [''a'', ''b'']
             \<and> (length (path_components (path nav)) = 2 \<or> options = Some True)
          then (True, [(cb, nav, Map.empty)]) else (False, []))
   \<and> path_components (p @ replicate n CHR ''/'') = path_components p"
proof -
  have a: "path_components ''/a//b/'' = [''a'', ''b'']"
    by (simp add: path_components_def)
  have pc: "path_components ''a/b'' = [''a'', ''b'']"
    by (simp add: path_components_def)
  have l: "take 2 xs = [x, y] \<longrightarrow> 2 \<le> length xs" for xs :: "string list" and x y
    by (cases xs; cases "tl xs") auto
  have b: "Router_route (BaseRouter_path ''a/b'' (BaseRouter_register cb options []) []) nav
       = (if take 2 (path_components (path nav)) = [''a'', ''b'']
             \<and> (length (path_components (path nav)) = 2 \<or> options = Some True)
          then (True, [(cb, nav, Map.empty)]) else (False, []))"
    using l[of "path_components (path nav)" "''a''" "''b''"]
    unfolding path_then_callback pc by (auto simp: numeral_2_eq_2)
  from a b path_components_trailing show ?thesis by blast
qed

theorem literal_path_match_witness:
  "Router_route (BaseRouter_path ''a/b'' (BaseRouter_register (7::nat) None []) []) (nav_of_path ''/a//b/'')
     = (True, [(7, nav_of_path ''/a//b/'', Map.empty)])
   \<and> Router_route (BaseRouter_path ''a/b'' (BaseRouter_register (7::nat) None []) []) (nav_of_path ''/a/b/c'')
     = (False, [])
   \<and> Router_route (BaseRouter_path ''a/b'' (BaseRouter_register (7::nat) (Some True) []) []) (nav_of_path ''/a/b/c'')
     = (True, [(7, nav_of_path ''/a/b/c'', Map.empty)])
   \<and> Router_route (BaseRouter_path ''a/b'' (BaseRouter_register (7::nat) (Some True) []) []) (nav_of_path ''/A/b'')
     = (False, [])
   \<and> path_components (''/a/b'' @ replicate 2 CHR ''/'') = path_components ''/a/b''"
proof -
  have p: "path_components (path (nav_of_path ''/a//b/'')) = [''a'', ''b'']"
    "path_components (path (nav_of_path ''/a/b/c'')) = [''a'', ''b'', ''c'']"
    "path_components (path (nav_of_path ''/A/b'')) = [''A'', ''b'']"
    by (simp_all add: nav_of_path_def path_components_def)
  from literal_path_match[of "7::nat" None "nav_of_path ''/a//b/''" "''/a/b''" 2]
    literal_path_match[of "7::nat" None "nav_of_path ''/a/b/c''" "''/a/b''" 2]
    literal_path_match[of "7::nat" "Some True" "nav_of_path ''/a/b/c''" "''/a/b''" 2]
    literal_path_match[of "7::nat" "Some True" "nav_of_path ''/A/b''" "''/a/b''" 2]
  show ?thesis
    by (simp add: p del: replicate.simps)
qed






lemma new_MultiParamHandler_single:
  "new_MultiParamHandler [(key, check)] nxt
     = Inr (MultiParamHandler key [(key, isArray (eachItem isString check))] nxt)"
  by (simp add: new_MultiParamHandler_def BaseParamHandler_key_def keysOf_def validator_field_def)




text \<open>
  C9. \<open>param\<close> and \<open>multiparam\<close> construct their handler at registration. With a
  validator object of zero keys, or of more than one, the constructor throws and nothing
  is registered; with exactly one key the handler is appended to the handlers. No routing
  is involved in either case.
\<close>

theorem param_constructor_arity:
  fixes sub :: "'c handler list"
  shows
  "(length (keysOf v) \<noteq> 1 \<longrightarrow>
      BaseRouter_param v sub handlers = Inl (ExpectedOneValidator (length (keysOf v)))
      \<and> BaseRouter_multiparam v sub handlers = Inl (ExpectedOneValidator (length (keysOf v))))
   \<and> (length (keysOf v) = 1 \<longrightarrow>
      (\<exists>key check. v = [(key, check)]
         \<and> BaseRouter_param v sub handlers = Inr (handlers @ [ParamHandler key v (Subrouter sub)])
         \<and> BaseRouter_multiparam v sub handlers
             = Inr (handlers @ [MultiParamHandler key [(key, isArray (eachItem isString check))]
                                  (Subrouter sub)])))"
proof -
  have a: "length (keysOf v) \<noteq> 1 \<longrightarrow>
      BaseRouter_param v sub handlers = Inl (ExpectedOneValidator (length (keysOf v)))
      \<and> BaseRouter_multiparam v sub handlers = Inl (ExpectedOneValidator (length (keysOf v)))"
    by (simp add: BaseRouter_param_def BaseRouter_multiparam_def new_ParamHandler_def
          new_MultiParamHandler_def BaseParamHandler_key_def Let_def)
  have b: "length (keysOf v) = 1 \<longrightarrow>
      (\<exists>key check. v = [(key, check)]
         \<and> BaseRouter_param v sub handlers = Inr (handlers @ [ParamHandler key v (Subrouter sub)])
         \<and> BaseRouter_multiparam v sub handlers
             = Inr (handlers @ [MultiParamHandler key [(key, isArray (eachItem isString check))]
                                  (Subrouter sub)]))"
  proof
    assume "length (keysOf v) = 1"
    then obtain key check where v: "v = [(key, check)]"
      by (cases v) (auto simp: keysOf_def)
    then show "\<exists>key check. v = [(key, check)]
         \<and> BaseRouter_param v sub handlers = Inr (handlers @ [ParamHandler key v (Subrouter sub)])
         \<and> BaseRouter_multiparam v sub handlers
             = Inr (handlers @ [MultiParamHandler key [(key, isArray (eachItem isString check))]
                                  (Subrouter sub)])"
      by (intro exI[of _ key] exI[of _ check])
         (simp add: BaseRouter_param_def BaseRouter_multiparam_def new_ParamHandler_def
            new_MultiParamHandler_single BaseParamHandler_key_def keysOf_def)
  qed
  from a b show ?thesis by blast
qed

theorem param_constructor_arity_witness:
  "BaseRouter_param [] [] ([] :: nat handler list) = Inl (ExpectedOneValidator 0)
   \<and> BaseRouter_multiparam [] [] ([] :: nat handler list) = Inl (ExpectedOneValidator 0)
   \<and> BaseRouter_param [(''a'', isString), (''b'', isString)] [] ([] :: nat handler list)
       = Inl (ExpectedOneValidator 2)
   \<and> BaseRouter_multiparam [(''a'', isString), (''b'', isString)] [] ([] :: nat handler list)
       = Inl (ExpectedOneValidator 2)
   \<and> BaseRouter_param [(''id'', numericString)] [] ([] :: nat handler list)
       = Inr [ParamHandler ''id'' [(''id'', numericString)] (Subrouter [])]
   \<and> BaseRouter_multiparam [(''segments'', anySegments)] [] ([] :: nat handler list)
       = Inr [MultiParamHandler ''segments'' [(''segments'', isArray (eachItem isString anySegments))]
                (Subrouter [])]"
proof -
  note T0 = param_constructor_arity[where v="[]" and sub="[] :: nat handler list" and handlers="[]"]
  note T2 = param_constructor_arity[where v="[(''a'', isString), (''b'', isString)]"
      and sub="[] :: nat handler list" and handlers="[]"]
  note T1 = param_constructor_arity[where v="[(''id'', numericString)]"
      and sub="[] :: nat handler list" and handlers="[]"]
  note T1' = param_constructor_arity[where v="[(''segments'', anySegments)]"
      and sub="[] :: nat handler list" and handlers="[]"]
  from T0 have a: "BaseRouter_param [] [] ([] :: nat handler list) = Inl (ExpectedOneValidator 0)
      \<and> BaseRouter_multiparam [] [] ([] :: nat handler list) = Inl (ExpectedOneValidator 0)"
    by (simp add: keysOf_def)
  from T2 have b: "BaseRouter_param [(''a'', isString), (''b'', isString)] [] ([] :: nat handler list)
       = Inl (ExpectedOneValidator 2)
      \<and> BaseRouter_multiparam [(''a'', isString), (''b'', isString)] [] ([] :: nat handler list)
       = Inl (ExpectedOneValidator 2)"
    by (simp add: keysOf_def)
  from T1 have c: "BaseRouter_param [(''id'', numericString)] [] ([] :: nat handler list)
       = Inr [ParamHandler ''id'' [(''id'', numericString)] (Subrouter [])]"
    by (auto simp: keysOf_def)
  from T1' have d: "BaseRouter_multiparam [(''segments'', anySegments)] [] ([] :: nat handler list)
       = Inr [MultiParamHandler ''segments'' [(''segments'', isArray (eachItem isString anySegments))]
                (Subrouter [])]"
    by (auto simp: keysOf_def)
  from a b c d show ?thesis by blast
qed

section \<open>Properties of the walk over the store\<close>

lemma route_st_Path:
  "route_st cb (PathHandler pcs nxt) nav pa sa \<sigma> =
     (if length (arr_at \<sigma> sa) < length pcs \<or> \<not> components_equal pcs (arr_at \<sigma> sa) then (False, [], \<sigma>)
      else route_st cb nxt nav pa (length \<sigma>) (\<sigma> @ [ArrCell (drop (length pcs) (arr_at \<sigma> sa))]))"
  by (simp add: alloc_def Let_def)

lemma obj_at_append: "a < length \<sigma> \<Longrightarrow> obj_at (\<sigma> @ xs) a = obj_at \<sigma> a"
  by (simp add: obj_at_def nth_append)

lemma arr_at_append: "a < length \<sigma> \<Longrightarrow> arr_at (\<sigma> @ xs) a = arr_at \<sigma> a"
  by (simp add: arr_at_def nth_append)

lemma obj_at_fresh: "obj_at (\<sigma> @ ObjCell ob # xs) (length \<sigma>) = ob"
  by (simp add: obj_at_def)

lemma route_st_Param:
  assumes "pa < length \<sigma>"
  shows "route_st cb (ParamHandler key v nxt) nav pa sa \<sigma> =
     (if length (arr_at \<sigma> sa) = 0 then (False, [], \<sigma>)
      else (case validate_conformsTo v (Map.empty(key \<mapsto> JString (arr_at \<sigma> sa ! 0))) of
              None \<Rightarrow> (False, [], \<sigma> @ [ObjCell (Map.empty(key \<mapsto> JString (arr_at \<sigma> sa ! 0))),
                                       ArrCell (drop 1 (arr_at \<sigma> sa))])
            | Some val \<Rightarrow>
                route_st cb nxt nav (length \<sigma> + 2) (length \<sigma> + 1)
                  (\<sigma> @ [ObjCell (Map.empty(key \<mapsto> JString (arr_at \<sigma> sa ! 0))),
                         ArrCell (drop 1 (arr_at \<sigma> sa)),
                         ObjCell (Object_assign Map.empty [obj_at \<sigma> pa, val])])))"
proof -
  have a: "obj_at (\<sigma> @ [ObjCell Map.empty]) (length \<sigma>) = Map.empty"
    by (simp add: obj_at_def)
  have b: "\<And>c1 c2. obj_at ((\<sigma> @ [c1, c2]) @ [ObjCell Map.empty]) (length \<sigma> + 2) = Map.empty"
    by (simp add: obj_at_def nth_append)
  have c: "\<And>c1 c2 c3. obj_at ((\<sigma> @ [c1, c2]) @ [c3]) pa = obj_at \<sigma> pa"
    using assms by (simp add: obj_at_def nth_append)
  have d: "\<And>c1 c2 c3 c4. ((\<sigma> @ [c1, c2]) @ [c3])[length \<sigma> + 2 := c4] = \<sigma> @ [c1, c2, c4]"
    by (simp add: list_update_append)
  show ?thesis
    by (simp add: alloc_def Let_def a obj_at_fresh[where xs="[]"] b[simplified] c[simplified] d[simplified] split: option.splits)
qed


lemma route_st_MultiParam:
  assumes "pa < length \<sigma>"
  shows "route_st cb (MultiParamHandler key v nxt) nav pa sa \<sigma> =
     (if length (arr_at \<sigma> sa) = 0 then (False, [], \<sigma>)
      else (case validate_conformsTo v (Map.empty(key \<mapsto> JArray (map JString (arr_at \<sigma> sa)))) of
              None \<Rightarrow> (False, [], \<sigma> @ [ObjCell (Map.empty(key \<mapsto> JArray (map JString (arr_at \<sigma> sa)))),
                                       ArrCell []])
            | Some val \<Rightarrow>
                route_st cb nxt nav (length \<sigma> + 2) (length \<sigma> + 1)
                  (\<sigma> @ [ObjCell (Map.empty(key \<mapsto> JArray (map JString (arr_at \<sigma> sa)))),
                         ArrCell [],
                         ObjCell (Object_assign Map.empty [obj_at \<sigma> pa, val])])))"
proof -
  have a: "obj_at (\<sigma> @ [ObjCell Map.empty]) (length \<sigma>) = Map.empty"
    by (simp add: obj_at_def)
  have b: "\<And>c1 c2. obj_at ((\<sigma> @ [c1, c2]) @ [ObjCell Map.empty]) (length \<sigma> + 2) = Map.empty"
    by (simp add: obj_at_def nth_append)
  have c: "\<And>c1 c2 c3. obj_at ((\<sigma> @ [c1, c2]) @ [c3]) pa = obj_at \<sigma> pa"
    using assms by (simp add: obj_at_def nth_append)
  have d: "\<And>c1 c2 c3 c4. ((\<sigma> @ [c1, c2]) @ [c3])[length \<sigma> + 2 := c4] = \<sigma> @ [c1, c2, c4]"
    by (simp add: list_update_append)
  show ?thesis
    by (simp add: alloc_def Let_def a obj_at_fresh[where xs="[]"] b[simplified] c[simplified] d[simplified] split: option.splits)
qed

lemma route_handlers_st_agrees_aux:
  fixes nav :: 'n
  assumes elem: "\<And>h (nav :: 'n) pa sa \<sigma>. h \<in> set hs \<Longrightarrow> pa < length \<sigma> \<Longrightarrow> sa < length \<sigma> \<Longrightarrow>
             agrees (route_st cb h nav pa sa \<sigma>) (route h nav (obj_at \<sigma> pa) (arr_at \<sigma> sa)) \<sigma>"
    and valid: "pa < length \<sigma>" "sa < length \<sigma>"
  shows "agrees (route_handlers_st cb hs nav pa sa \<sigma>) (route_handlers hs nav (obj_at \<sigma> pa) (arr_at \<sigma> sa)) \<sigma>"
  using elem valid
proof (induction hs arbitrary: \<sigma>)
  case Nil
  then show ?case by (simp add: agrees_def)
next
  case (Cons h hs)
  obtain ok1 c1 \<sigma>1 where r1: "route_st cb h nav pa sa \<sigma> = (ok1, c1, \<sigma>1)"
    by (cases "route_st cb h nav pa sa \<sigma>") auto
  have a1: "agrees (ok1, c1, \<sigma>1) (route h nav (obj_at \<sigma> pa) (arr_at \<sigma> sa)) \<sigma>"
    using Cons.prems(1)[of h pa \<sigma> sa nav] Cons.prems(2,3) r1 by simp
  show ?case
  proof (cases ok1)
    case True
    with a1 r1 show ?thesis by (auto simp: agrees_def split: prod.splits)
  next
    case False
    with a1 have p: "prefix \<sigma> \<sigma>1" and e: "route h nav (obj_at \<sigma> pa) (arr_at \<sigma> sa) = (False, c1)"
      by (auto simp: agrees_def)
    from p obtain zs where zs: "\<sigma>1 = \<sigma> @ zs" by (auto simp: prefix_def)
    have v1: "pa < length \<sigma>1" "sa < length \<sigma>1" using zs Cons.prems(2,3) by auto
    have same: "obj_at \<sigma>1 pa = obj_at \<sigma> pa" "arr_at \<sigma>1 sa = arr_at \<sigma> sa"
      using zs Cons.prems(2,3) by (simp_all add: obj_at_append arr_at_append)
    have a2: "agrees (route_handlers_st cb hs nav pa sa \<sigma>1) (route_handlers hs nav (obj_at \<sigma>1 pa) (arr_at \<sigma>1 sa)) \<sigma>1"
      by (rule Cons.IH[OF _ v1]) (rule Cons.prems(1), auto)
    obtain ok2 c2 \<sigma>2 where r2: "route_handlers_st cb hs nav pa sa \<sigma>1 = (ok2, c2, \<sigma>2)"
      by (cases "route_handlers_st cb hs nav pa sa \<sigma>1") auto
    from a2 r2 same p False r1 e show ?thesis
      by (auto simp: agrees_def split: prod.splits intro: prefix_order.trans)
  qed
qed

lemma route_st_agrees:
  fixes nav :: 'n
  shows "pa < length \<sigma> \<Longrightarrow> sa < length \<sigma> \<Longrightarrow>
    agrees (route_st cb h nav pa sa \<sigma>) (route h nav (obj_at \<sigma> pa) (arr_at \<sigma> sa)) \<sigma>"
proof (induction h arbitrary: nav pa sa \<sigma>)
  case (PathHandler pcs h)
  show ?case
  proof (cases "length (arr_at \<sigma> sa) < length pcs \<or> \<not> components_equal pcs (arr_at \<sigma> sa)")
    case True
    then show ?thesis by (auto simp: route_st_Path agrees_def simp del: route_st.simps)
  next
    case False
    let ?\<sigma>1 = "\<sigma> @ [ArrCell (drop (length pcs) (arr_at \<sigma> sa))]"
    have "agrees (route_st cb h nav pa (length \<sigma>) ?\<sigma>1) (route h nav (obj_at ?\<sigma>1 pa) (arr_at ?\<sigma>1 (length \<sigma>))) ?\<sigma>1"
      using PathHandler.prems by (intro PathHandler.IH) auto
    moreover have "obj_at ?\<sigma>1 pa = obj_at \<sigma> pa" using PathHandler.prems by (simp add: obj_at_append)
    moreover have "arr_at ?\<sigma>1 (length \<sigma>) = drop (length pcs) (arr_at \<sigma> sa)" by (simp add: arr_at_def)
    ultimately show ?thesis using False
      by (auto simp: route_st_Path agrees_def simp del: route_st.simps dest: append_prefixD)
  qed
next
  case (ParamHandler key v h)
  show ?case
  proof (cases "length (arr_at \<sigma> sa) = 0")
    case True
    then show ?thesis using ParamHandler.prems
      by (simp add: route_st_Param agrees_def del: route_st.simps)
  next
    case False
    show ?thesis
    proof (cases "validate_conformsTo v (Map.empty(key \<mapsto> JString (arr_at \<sigma> sa ! 0)))")
      case None
      with False ParamHandler.prems show ?thesis
        by (simp add: route_st_Param agrees_def del: route_st.simps)
    next
      case (Some val)
      let ?\<sigma>1 = "\<sigma> @ [ObjCell (Map.empty(key \<mapsto> JString (arr_at \<sigma> sa ! 0))),
                         ArrCell (drop 1 (arr_at \<sigma> sa)),
                         ObjCell (Object_assign Map.empty [obj_at \<sigma> pa, val])]"
      have "agrees (route_st cb h nav (length \<sigma> + 2) (length \<sigma> + 1) ?\<sigma>1)
              (route h nav (obj_at ?\<sigma>1 (length \<sigma> + 2)) (arr_at ?\<sigma>1 (length \<sigma> + 1))) ?\<sigma>1"
        by (intro ParamHandler.IH) auto
      moreover have "obj_at ?\<sigma>1 (length \<sigma> + 2) = Object_assign Map.empty [obj_at \<sigma> pa, val]"
        by (simp add: obj_at_def nth_append)
      moreover have "arr_at ?\<sigma>1 (length \<sigma> + 1) = drop 1 (arr_at \<sigma> sa)"
        by (simp add: arr_at_def nth_append)
      ultimately show ?thesis using False Some ParamHandler.prems
        by (auto simp: route_st_Param agrees_def simp del: route_st.simps dest: append_prefixD)
    qed
  qed
next
  case (MultiParamHandler key v h)
  show ?case
  proof (cases "length (arr_at \<sigma> sa) = 0")
    case True
    then show ?thesis using MultiParamHandler.prems
      by (simp add: route_st_MultiParam agrees_def del: route_st.simps)
  next
    case False
    show ?thesis
    proof (cases "validate_conformsTo v (Map.empty(key \<mapsto> JArray (map JString (arr_at \<sigma> sa))))")
      case None
      with False MultiParamHandler.prems show ?thesis
        by (simp add: route_st_MultiParam agrees_def del: route_st.simps)
    next
      case (Some val)
      let ?\<sigma>1 = "\<sigma> @ [ObjCell (Map.empty(key \<mapsto> JArray (map JString (arr_at \<sigma> sa)))),
                         ArrCell [],
                         ObjCell (Object_assign Map.empty [obj_at \<sigma> pa, val])]"
      have "agrees (route_st cb h nav (length \<sigma> + 2) (length \<sigma> + 1) ?\<sigma>1)
              (route h nav (obj_at ?\<sigma>1 (length \<sigma> + 2)) (arr_at ?\<sigma>1 (length \<sigma> + 1))) ?\<sigma>1"
        by (intro MultiParamHandler.IH) auto
      moreover have "obj_at ?\<sigma>1 (length \<sigma> + 2) = Object_assign Map.empty [obj_at \<sigma> pa, val]"
        by (simp add: obj_at_def nth_append)
      moreover have "arr_at ?\<sigma>1 (length \<sigma> + 1) = []"
        by (simp add: arr_at_def nth_append)
      ultimately show ?thesis using False Some MultiParamHandler.prems
        by (auto simp: route_st_MultiParam agrees_def simp del: route_st.simps dest: append_prefixD)
    qed
  qed
next
  case (Subrouter hs)
  have "agrees (route_handlers_st cb hs nav pa sa \<sigma>) (route_handlers hs nav (obj_at \<sigma> pa) (arr_at \<sigma> sa)) \<sigma>"
    by (rule route_handlers_st_agrees_aux[OF _ Subrouter.prems]) (rule Subrouter.IH, auto)
  then show ?case by simp
next
  case (CallbackHandler c ign)
  then show ?case by (auto simp: agrees_def)
qed

text \<open>
  C10. When the \<open>route\<close> of a parameter handler reports \<open>false\<close>, because no segment
  remained, because its validator failed, or because the continuation it delegated to
  failed, no callback was invoked and every cell of the store that existed before the
  call is unchanged, in particular the parameter object and the segment array of the
  caller: the candidate object, the sliced array and the merged parameter object are new
  allocations. The enclosing loop then tries the later siblings with the same two
  references, and what those siblings report and invoke is what they report and invoke
  on the original parameter object and the original segments.
\<close>

theorem param_failure_frame:
  fixes nav :: 'n and h :: "'c handler"
  assumes h: "h = ParamHandler key v nxt \<or> h = MultiParamHandler key v nxt"
    and valid: "params < length \<sigma>" "subpath < length \<sigma>"
    and failed: "route_st run_callback h nav params subpath \<sigma> = (False, calls, \<sigma>')"
  shows "calls = [] \<and> prefix \<sigma> \<sigma>'
     \<and> \<sigma>' ! params = \<sigma> ! params \<and> \<sigma>' ! subpath = \<sigma> ! subpath
     \<and> obj_at \<sigma>' params = obj_at \<sigma> params \<and> arr_at \<sigma>' subpath = arr_at \<sigma> subpath
     \<and> route_handlers_st run_callback (h # hs) nav params subpath \<sigma>
         = route_handlers_st run_callback hs nav params subpath \<sigma>'
     \<and> (fst (route_handlers_st run_callback (h # hs) nav params subpath \<sigma>),
         fst (snd (route_handlers_st run_callback (h # hs) nav params subpath \<sigma>)))
         = route_handlers hs nav (obj_at \<sigma> params) (arr_at \<sigma> subpath)"
proof -
  have ag: "agrees (route_st run_callback h nav params subpath \<sigma>)
              (route h nav (obj_at \<sigma> params) (arr_at \<sigma> subpath)) \<sigma>"
    using valid by (rule route_st_agrees)
  with failed have pre: "prefix \<sigma> \<sigma>'"
    and pure: "route h nav (obj_at \<sigma> params) (arr_at \<sigma> subpath) = (False, calls)"
    by (simp_all add: agrees_def)
  from pure have c: "calls = []"
    using route_failed[of h nav "obj_at \<sigma> params" "arr_at \<sigma> subpath"] by simp
  from pre obtain zs where zs: "\<sigma>' = \<sigma> @ zs"
    by (auto simp: prefix_def)
  have cells: "\<sigma>' ! params = \<sigma> ! params" "\<sigma>' ! subpath = \<sigma> ! subpath"
    using zs valid by (simp_all add: nth_append)
  have same: "obj_at \<sigma>' params = obj_at \<sigma> params" "arr_at \<sigma>' subpath = arr_at \<sigma> subpath"
    using cells by (simp_all add: obj_at_def arr_at_def)
  have loop: "route_handlers_st run_callback (h # hs) nav params subpath \<sigma>
         = route_handlers_st run_callback hs nav params subpath \<sigma>'"
    using failed c by (simp split: prod.splits)
  have "agrees (route_handlers_st run_callback (h # hs) nav params subpath \<sigma>)
          (route_handlers (h # hs) nav (obj_at \<sigma> params) (arr_at \<sigma> subpath)) \<sigma>"
    using valid by (intro route_handlers_st_agrees_aux route_st_agrees)
  moreover have "route_handlers (h # hs) nav (obj_at \<sigma> params) (arr_at \<sigma> subpath)
      = route_handlers hs nav (obj_at \<sigma> params) (arr_at \<sigma> subpath)"
    using pure by (intro route_handlers_skip) simp
  ultimately have sib: "(fst (route_handlers_st run_callback (h # hs) nav params subpath \<sigma>),
         fst (snd (route_handlers_st run_callback (h # hs) nav params subpath \<sigma>)))
         = route_handlers hs nav (obj_at \<sigma> params) (arr_at \<sigma> subpath)"
    by (simp add: agrees_def del: route_handlers_st.simps route_handlers.simps)
  from c pre cells same loop sib show ?thesis by blast
qed

theorem param_failure_frame_witness:
  "fst (snd (route_st (\<lambda>c a \<sigma>. []) param_then_x (0::nat) 0 1
               [ObjCell Map.empty, ArrCell [''a'', ''b'']])) = []
   \<and> obj_at (snd (snd (route_st (\<lambda>c a \<sigma>. []) param_then_x (0::nat) 0 1
               [ObjCell Map.empty, ArrCell [''a'', ''b'']]))) 0 = Map.empty
   \<and> arr_at (snd (snd (route_st (\<lambda>c a \<sigma>. []) param_then_x (0::nat) 0 1
               [ObjCell Map.empty, ArrCell [''a'', ''b'']]))) 1 = [''a'', ''b'']
   \<and> (fst (route_handlers_st (\<lambda>c a \<sigma>. []) [param_then_x, literal_a, catch_all] (0::nat) 0 1
               [ObjCell Map.empty, ArrCell [''a'', ''b'']]),
       fst (snd (route_handlers_st (\<lambda>c a \<sigma>. []) [param_then_x, literal_a, catch_all] (0::nat) 0 1
               [ObjCell Map.empty, ArrCell [''a'', ''b'']])))
      = (True, [(2, 0, Map.empty)])"
proof -
  define \<sigma> :: store where "\<sigma> = [ObjCell Map.empty, ArrCell [''a'', ''b'']]"
  define cb :: "nat \<Rightarrow> nat \<Rightarrow> store \<Rightarrow> store" where "cb = (\<lambda>c a \<sigma>. [])"
  define r where "r = route_st cb param_then_x (0::nat) 0 1 \<sigma>"
  have v: "(0::nat) < length \<sigma>" "(1::nat) < length \<sigma>"
    by (simp_all add: \<sigma>_def)
  have o: "obj_at \<sigma> 0 = Map.empty" "arr_at \<sigma> 1 = [''a'', ''b'']"
    "arr_at \<sigma> (Suc 0) = [''a'', ''b'']"
    by (simp_all add: \<sigma>_def obj_at_def arr_at_def)
  have "agrees r (route param_then_x (0::nat) (obj_at \<sigma> 0) (arr_at \<sigma> 1)) \<sigma>"
    unfolding r_def using v by (rule route_st_agrees)
  moreover have "route param_then_x (0::nat) Map.empty [''a'', ''b''] = (False, [])"
    by (simp add: param_then_x_def isString_def get_property_def)
  ultimately have "fst r = False"
    by (simp add: agrees_def o)
  then have f: "route_st cb param_then_x (0::nat) 0 1 \<sigma> = (False, fst (snd r), snd (snd r))"
    unfolding r_def by (cases "route_st cb param_then_x (0::nat) 0 1 \<sigma>") simp
  have h: "param_then_x = ParamHandler ''id'' [(''id'', isString)]
             (Subrouter [PathHandler [''x''] (Subrouter [CallbackHandler 1 False])])
           \<or> param_then_x = MultiParamHandler ''id'' [(''id'', isString)]
             (Subrouter [PathHandler [''x''] (Subrouter [CallbackHandler 1 False])])"
    by (simp add: param_then_x_def)
  have s: "route_handlers [literal_a, catch_all] (0::nat) Map.empty [''a'', ''b'']
      = (True, [(2, 0, Map.empty)])"
    by (simp add: literal_a_def)
  note T = param_failure_frame[OF h v f, of "[literal_a, catch_all]"]
  from T have A: "fst (snd r) = []" by blast
  from T have B: "obj_at (snd (snd r)) 0 = obj_at \<sigma> 0" by blast
  from T have C: "arr_at (snd (snd r)) 1 = arr_at \<sigma> 1" by blast
  from T have D: "(fst (route_handlers_st cb [param_then_x, literal_a, catch_all] (0::nat) 0 1 \<sigma>),
       fst (snd (route_handlers_st cb [param_then_x, literal_a, catch_all] (0::nat) 0 1 \<sigma>)))
      = route_handlers [literal_a, catch_all] 0 (obj_at \<sigma> 0) (arr_at \<sigma> 1)" by blast
  from A B C D show ?thesis
    unfolding o s unfolding r_def \<sigma>_def cb_def by blast
qed

section \<open>Properties of the navigation sequencer\<close>

lemma navigate_end_result:
  "fst (navigate_end handlers a s) = fst (Router_route handlers (navs s ! a))"
  by (simp add: navigate_end_def Let_def)

lemma navigate_end_state:
  "snd (navigate_end handlers a s) =
     (if fst (Router_route handlers (navs s ! a)) \<and> \<not> cancelled (navs s ! a)
      then s\<lparr>nextNav := None, currentNav := Some a, navigatedEvent := navigatedEvent s @ [a],
             browserApi_setUrl := browserApi_setUrl s @ [a]\<rparr>
      else s\<lparr>nextNav := None\<rparr>)"
  by (simp add: navigate_end_def Let_def setCurrentNav_def browserApi_setUrl_call_def)

text \<open>
  C1, as stated, fails. With the routes \<open>slow\<close> and \<open>fast\<close> registered,
  \<open>navigate('/slow')\<close> is called and, while its walk is pending, \<open>navigate('/fast')\<close>.
  The first navigation is then cancelled; when its walk completes, its call resolves to
  \<open>true\<close> although nothing is committed.
\<close>

theorem cancelled_navigate_resolves_true:
  "cancelled (navs (run slow_fast_router [Call (Url ''/slow''), Call (Url ''/fast'')] Router_new) ! 0)
   \<and> fst (navigate_end slow_fast_router 0
           (run slow_fast_router [Call (Url ''/slow''), Call (Url ''/fast'')] Router_new)) = True
   \<and> currentNav (snd (navigate_end slow_fast_router 0
           (run slow_fast_router [Call (Url ''/slow''), Call (Url ''/fast'')] Router_new))) = None"
  by code_simp

text \<open>
  C1, as amended. \<open>navigate\<close> resolves to \<open>handled\<close>, the result of the route walk,
  whether or not the navigation was cancelled meanwhile, and to \<open>false\<close> at once when no
  handler is registered. The navigation is committed (it becomes \<open>currentNav\<close>, the
  \<open>navigated\<close> event is emitted and the history adapter is told) exactly when it was
  handled and its \<open>cancelled\<close> flag is false when the walk completes; otherwise only the
  pending marker is cleared. So a call that commits resolves to \<open>true\<close>, and a call whose
  navigation matched but was cancelled also resolves to \<open>true\<close>.
\<close>

theorem navigate_resolves_to_handled:
  "fst (navigate_end handlers a s) = fst (Router_route handlers (navs s ! a))
   \<and> snd (navigate_end handlers a s) =
       (if fst (Router_route handlers (navs s ! a)) \<and> \<not> cancelled (navs s ! a)
        then s\<lparr>nextNav := None, currentNav := Some a, navigatedEvent := navigatedEvent s @ [a],
               browserApi_setUrl := browserApi_setUrl s @ [a]\<rparr>
        else s\<lparr>nextNav := None\<rparr>)
   \<and> (navigatedEvent (snd (navigate_end handlers a s)) \<noteq> navigatedEvent s
        \<longrightarrow> fst (navigate_end handlers a s))
   \<and> (length handlers = 0 \<longrightarrow> navigate_begin handlers arg s = (Returned False, s))"
  by (simp add: navigate_end_result navigate_end_state navigate_begin_def)


theorem navigate_resolves_to_handled_witness:
  "fst (navigate_end slow_fast_router 0
          (run slow_fast_router [Call (Url ''/slow''), Call (Url ''/fast'')] Router_new)) = True
   \<and> navigatedEvent (snd (navigate_end slow_fast_router 0
          (run slow_fast_router [Call (Url ''/slow''), Call (Url ''/fast'')] Router_new))) = []
   \<and> fst (navigate_end slow_fast_router 1
          (run slow_fast_router [Call (Url ''/slow''), Call (Url ''/fast'')] Router_new)) = True
   \<and> navigatedEvent (snd (navigate_end slow_fast_router 1
          (run slow_fast_router [Call (Url ''/slow''), Call (Url ''/fast'')] Router_new))) = [1]
   \<and> currentNav (snd (navigate_end slow_fast_router 1
          (run slow_fast_router [Call (Url ''/slow''), Call (Url ''/fast'')] Router_new))) = Some 1
   \<and> navigate_begin ([] :: nat handler list) (Url ''/slow'') Router_new = (Returned False, Router_new)"
proof -
  define S where "S = run slow_fast_router [Call (Url ''/slow''), Call (Url ''/fast'')] Router_new"
  have r: "fst (Router_route slow_fast_router (navs S ! 0))" "fst (Router_route slow_fast_router (navs S ! 1))"
    unfolding S_def by code_simp+
  have c: "cancelled (navs S ! 0)" "\<not> cancelled (navs S ! 1)"
    unfolding S_def by code_simp+
  have e: "navigatedEvent S = []"
    unfolding S_def by code_simp
  note T0 = navigate_resolves_to_handled[of slow_fast_router 0 S "Url ''/slow''"]
  note T1 = navigate_resolves_to_handled[of slow_fast_router 1 S "Url ''/slow''"]
  note TE = navigate_resolves_to_handled[of "[] :: nat handler list" 0 Router_new "Url ''/slow''"]
  from T0 r c e have a0: "fst (navigate_end slow_fast_router 0 S) = True
      \<and> navigatedEvent (snd (navigate_end slow_fast_router 0 S)) = []"
    by simp
  from T1 r c e have a1: "fst (navigate_end slow_fast_router 1 S) = True
      \<and> navigatedEvent (snd (navigate_end slow_fast_router 1 S)) = [1]
      \<and> currentNav (snd (navigate_end slow_fast_router 1 S)) = Some 1"
    by simp
  from TE have a2: "navigate_begin ([] :: nat handler list) (Url ''/slow'') Router_new = (Returned False, Router_new)"
    by simp
  from a0 a1 a2 show ?thesis unfolding S_def by blast
qed

text \<open>
  The \<open>cancelled\<close> flag is never reset, and a navigation that is the router's pending
  navigation (\<open>nextNav\<close>) when a later \<open>navigate\<close> starts is cancelled by that call, so
  its own call never commits it, whatever runs in between.
\<close>

lemma navs_navigate_end: "navs (snd (navigate_end handlers a s)) = navs s"
  by (simp add: navigate_end_state)

lemma cancelled_cancel_pending:
  "length (navs (cancel_pending s)) = length (navs s) \<and> cancelled (navs (cancel_pending s) ! a)"
  if "a < length (navs s)" "cancelled (navs s ! a)"
proof (cases "nextNav s")
  case None
  then show ?thesis using that by (simp add: cancel_pending_def)
next
  case (Some p)
  then show ?thesis using that
    by (cases "p = a") (simp_all add: cancel_pending_def)
qed

lemma cancelled_navigate_begin:
  assumes "a < length (navs s)" "cancelled (navs s ! a)"
  shows "a < length (navs (snd (navigate_begin handlers arg s)))
     \<and> cancelled (navs (snd (navigate_begin handlers arg s)) ! a)"
  using cancelled_cancel_pending[OF assms] assms
  by (cases arg) (auto simp: navigate_begin_def Let_def nth_append split: sum.splits)

lemma cancelled_run:
  "a < length (navs s) \<Longrightarrow> cancelled (navs s ! a) \<Longrightarrow>
     a < length (navs (run handlers es s)) \<and> cancelled (navs (run handlers es s) ! a)"
proof (induction es arbitrary: s)
  case Nil
  then show ?case by simp
next
  case (Cons e es)
  show ?case
  proof (cases e)
    case (Call arg)
    from cancelled_navigate_begin[OF Cons.prems, of handlers arg]
    have "a < length (navs (run handlers es (snd (navigate_begin handlers arg s))))
        \<and> cancelled (navs (run handlers es (snd (navigate_begin handlers arg s))) ! a)"
      by (intro Cons.IH) simp_all
    with Call show ?thesis by simp
  next
    case (Resume b)
    with Cons.IH[of "snd (navigate_end handlers b s)"] Cons.prems
    show ?thesis by (simp add: navs_navigate_end)
  qed
qed

lemma pending_cancelled_by_next_call:
  assumes "handlers \<noteq> []" "nextNav s = Some a" "a < length (navs s)"
  shows "a < length (navs (snd (navigate_begin handlers arg s)))
     \<and> cancelled (navs (snd (navigate_begin handlers arg s)) ! a)"
  using assms
  by (cases arg) (auto simp: navigate_begin_def cancel_pending_def Let_def nth_append split: sum.splits)

lemma marked_pending_never_commits:
  assumes "handlers \<noteq> []" "nextNav s = Some a" "a < length (navs s)"
    and "s' = run handlers es (snd (navigate_begin handlers arg s))"
  shows "snd (navigate_end handlers a s') = s'\<lparr>nextNav := None\<rparr>"
proof -
  from pending_cancelled_by_next_call[OF assms(1-3)] cancelled_run assms(4)
  have "cancelled (navs s' ! a)" by blast
  then show ?thesis by (simp add: navigate_end_state)
qed

text \<open>
  C2. The code does not keep this guarantee when three navigations overlap, because every
  call clears \<open>nextNav\<close> when its walk completes, also when \<open>nextNav\<close> names a later
  navigation. With the routes \<open>slow\<close> and \<open>fast\<close> registered: \<open>navigate('/x')\<close> (navigation
  0) and then \<open>navigate('/slow')\<close> (navigation 1) are called; the walk of navigation 0
  completes and clears \<open>nextNav\<close>, which named navigation 1; \<open>navigate('/fast')\<close>
  (navigation 2) is called while navigation 1 is still pending and finds no pending
  navigation to cancel; navigation 2 completes and is committed; navigation 1 completes
  last, is not cancelled, and its resolution sets \<open>currentNav\<close> and emits \<open>navigated\<close>.
\<close>

theorem superseded_navigation_commits:
  "nextNav (run slow_fast_router [Call (Url ''/x''), Call (Url ''/slow''), Resume 0] Router_new) = None
   \<and> map cancelled (navs (run slow_fast_router
         [Call (Url ''/x''), Call (Url ''/slow''), Resume 0, Call (Url ''/fast'')] Router_new))
       = [True, False, False]
   \<and> currentNav (run slow_fast_router
         [Call (Url ''/x''), Call (Url ''/slow''), Resume 0, Call (Url ''/fast''), Resume 2] Router_new)
       = Some 2
   \<and> currentNav (run slow_fast_router
         [Call (Url ''/x''), Call (Url ''/slow''), Resume 0, Call (Url ''/fast''), Resume 2, Resume 1]
         Router_new)
       = Some 1
   \<and> navigatedEvent (run slow_fast_router
         [Call (Url ''/x''), Call (Url ''/slow''), Resume 0, Call (Url ''/fast''), Resume 2, Resume 1]
         Router_new)
       = [2, 1]
   \<and> map url (navs (run slow_fast_router
         [Call (Url ''/x''), Call (Url ''/slow''), Resume 0, Call (Url ''/fast''), Resume 2, Resume 1]
         Router_new))
       = [''/x'', ''/slow'', ''/fast'']"
  by code_simp

section \<open>Properties of \<open>createFromUrl\<close>\<close>

lemma js_split_unfold:
  "js_split sep s =
     before_first sep s # (if sep \<in> set s then js_split sep (after_first sep s) else [])"
proof (induction s)
  case Nil
  then show ?case by (simp add: before_first_def)
next
  case (Cons c cs)
  show ?case
  proof (cases "c = sep")
    case True
    then show ?thesis by (simp add: before_first_def after_first_def)
  next
    case False
    then show ?thesis using Cons
      by (auto simp: before_first_def after_first_def)
  qed
qed

lemma after_first_absent: "sep \<notin> set s \<Longrightarrow> after_first sep s = []"
  by (induction s) (auto simp: after_first_def)

lemma before_first_absent: "sep \<notin> set s \<Longrightarrow> before_first sep s = s"
  by (induction s) (auto simp: before_first_def)

lemma split_limit_item0: "item_or_empty (js_split_limit sep s 2) 0 = before_first sep s"
proof -
  obtain rest where "js_split sep s = before_first sep s # rest"
    using js_split_unfold[of sep s] by blast
  then show ?thesis
    by (simp add: js_split_limit_def item_or_empty_def)
qed

lemma split_limit_item1:
  "item_or_empty (js_split_limit sep s 2) (Suc 0) = before_first sep (after_first sep s)"
proof (cases "sep \<in> set s")
  case True
  have "js_split sep s = before_first sep s # before_first sep (after_first sep s)
          # (if sep \<in> set (after_first sep s) then js_split sep (after_first sep (after_first sep s)) else [])"
    using True by (subst js_split_unfold, subst js_split_unfold) simp
  then show ?thesis
    by (simp add: js_split_limit_def item_or_empty_def numeral_2_eq_2)
next
  case False
  then have "js_split sep s = [before_first sep s]"
    by (subst js_split_unfold) simp
  with False show ?thesis
    by (simp add: js_split_limit_def item_or_empty_def after_first_absent before_first_def)
qed

lemma query_loop_pairs:
  "query_loop pairs q = Inr q' \<Longrightarrow>
     \<exists>kvs. list_all2 (\<lambda>p (k, v). decodeURIComponent (before_first CHR ''='' p) = Inr k
                           \<and> decodeURIComponent (before_first CHR ''='' (after_first CHR ''='' p)) = Inr v)
              pairs kvs
         \<and> q' = foldl (\<lambda>q (k, v). set_property q k v) q kvs"
proof (induction pairs arbitrary: q)
  case Nil
  then show ?case by simp
next
  case (Cons p pairs)
  from Cons.prems obtain k v where
    k: "decodeURIComponent (before_first CHR ''='' p) = Inr k"
    and v: "decodeURIComponent (before_first CHR ''='' (after_first CHR ''='' p)) = Inr v"
    and rest: "query_loop pairs (set_property q k v) = Inr q'"
    by (auto simp: Let_def split_limit_item0 split_limit_item1 split: sum.splits)
  from Cons.IH[OF rest] obtain kvs where
    l: "list_all2 (\<lambda>p (k, v). decodeURIComponent (before_first CHR ''='' p) = Inr k
                           \<and> decodeURIComponent (before_first CHR ''='' (after_first CHR ''='' p)) = Inr v)
              pairs kvs"
    and q': "q' = foldl (\<lambda>q (k, v). set_property q k v) (set_property q k v) kvs"
    by blast
  show ?case
    using k v l q' by (intro exI[of _ "(k, v) # kvs"]) simp
qed

lemma foldl_set_property:
  "k \<noteq> ''__proto__'' \<Longrightarrow>
     foldl (\<lambda>q (k, v). set_property q k v) q kvs k
       = (case map_of (rev kvs) k of None \<Rightarrow> q k | Some v \<Rightarrow> Some v)"
proof (induction kvs arbitrary: q)
  case Nil
  then show ?case by simp
next
  case (Cons kv kvs)
  obtain k' v' where kv: "kv = (k', v')" by (cases kv)
  show ?case
    using Cons.IH[OF Cons.prems, of "set_property q k' v'"] Cons.prems
    by (auto simp: kv set_property_def map_add_def split: option.splits)
qed

lemma map_of_rev_last:
  "(map_of (rev kvs) k = Some v) = (\<exists>xs ys. kvs = xs @ (k, v) # ys \<and> k \<notin> fst ` set ys)"
proof (induction kvs rule: rev_induct)
  case Nil
  then show ?case by simp
next
  case (snoc kv kvs)
  obtain k' v' where kv: "kv = (k', v')" by (cases kv)
  show ?case
  proof (cases "k' = k")
    case True
    have "(\<exists>xs ys. kvs @ [(k, v')] = xs @ (k, v) # ys \<and> k \<notin> fst ` set ys) = (v' = v)"
    proof
      assume "\<exists>xs ys. kvs @ [(k, v')] = xs @ (k, v) # ys \<and> k \<notin> fst ` set ys"
      then obtain xs ys where e: "kvs @ [(k, v')] = xs @ (k, v) # ys" and n: "k \<notin> fst ` set ys"
        by blast
      show "v' = v"
      proof (cases ys rule: rev_cases)
        case Nil
        with e show ?thesis by simp
      next
        case (snoc ys' y)
        with e have "y = (k, v')" by simp
        with snoc n show ?thesis by force
      qed
    next
      assume "v' = v"
      then show "\<exists>xs ys. kvs @ [(k, v')] = xs @ (k, v) # ys \<and> k \<notin> fst ` set ys"
        by (intro exI[of _ kvs] exI[of _ "[]"]) simp
    qed
    with True kv show ?thesis by simp
  next
    case False
    have "(\<exists>xs ys. kvs @ [(k', v')] = xs @ (k, v) # ys \<and> k \<notin> fst ` set ys)
        = (\<exists>xs ys. kvs = xs @ (k, v) # ys \<and> k \<notin> fst ` set ys)"
    proof
      assume "\<exists>xs ys. kvs @ [(k', v')] = xs @ (k, v) # ys \<and> k \<notin> fst ` set ys"
      then obtain xs ys where e: "kvs @ [(k', v')] = xs @ (k, v) # ys" and n: "k \<notin> fst ` set ys"
        by blast
      show "\<exists>xs ys. kvs = xs @ (k, v) # ys \<and> k \<notin> fst ` set ys"
      proof (cases ys rule: rev_cases)
        case Nil
        with e False show ?thesis by simp
      next
        case (snoc ys' y)
        with e have "kvs = xs @ (k, v) # ys'" by simp
        moreover from snoc n have "k \<notin> fst ` set ys'" by auto
        ultimately show ?thesis by blast
      qed
    next
      assume "\<exists>xs ys. kvs = xs @ (k, v) # ys \<and> k \<notin> fst ` set ys"
      then obtain xs ys where "kvs = xs @ (k, v) # ys" "k \<notin> fst ` set ys" by blast
      then show "\<exists>xs ys. kvs @ [(k', v')] = xs @ (k, v) # ys \<and> k \<notin> fst ` set ys"
        using False by (intro exI[of _ xs] exI[of _ "ys @ [(k', v')]"]) auto
    qed
    with False kv snoc show ?thesis by simp
  qed
qed

text \<open>
  C7, as stated, fails: \<open>split(sep, 2)\<close> cuts at every separator and keeps two pieces, so
  it is not a split at the first separator. In \<open>/p?k=a=b\<close> the text after the first \<open>=\<close>
  of the pair is \<open>a=b\<close>, but the value stored for \<open>k\<close> is \<open>a\<close>; in \<open>/p?k=1?j=2\<close> the
  text after the first \<open>?\<close> is \<open>k=1?j=2\<close>, but the query string used is \<open>k=1\<close>.
\<close>

theorem createFromUrl_cuts_at_every_separator:
  "map_sum id (\<lambda>n. query n ''k'') (createFromUrl ''/p?k=a=b'') = Inr (Some ''a'')
   \<and> after_first CHR ''='' ''k=a=b'' = ''a=b''
   \<and> map_sum id (\<lambda>n. query n ''k'') (createFromUrl ''/p?k=1?j=2'') = Inr (Some ''1'')
   \<and> after_first CHR ''?'' ''/p?k=1?j=2'' = ''k=1?j=2''"
  by code_simp

lemma createFromUrl_url: "createFromUrl raw = Inr nav \<Longrightarrow> encodeURI raw = Inr (url nav)"
  by (auto simp: createFromUrl_def Let_def split: if_splits sum.splits)

text \<open>
  C7, as amended. When \<open>createFromUrl\<close> returns a navigation, its \<open>url\<close> is the
  percent-encoded input and its \<open>path\<close> is the text before the first \<open>?\<close> of that. Without
  a \<open>?\<close> the path is the whole encoded string and the query is empty. With a \<open>?\<close>, the
  query string is the text between the first and the second \<open>?\<close>; each of its
  \<open>&\<close>-separated pairs gives a key, the text before its first \<open>=\<close>, and a value, the text
  between its first and its second \<open>=\<close>, each decoded on its own with
  \<open>decodeURIComponent\<close>; and for every key other than \<open>__proto__\<close> the query maps the key
  to the value of the last pair with that key, and holds no other keys. A pair without
  \<open>=\<close> is its own key and has the empty value.
\<close>

theorem createFromUrl_structure:
  assumes "createFromUrl raw = Inr nav"
  shows "encodeURI raw = Inr (url nav)
    \<and> path nav = before_first CHR ''?'' (url nav)
    \<and> (CHR ''?'' \<notin> set (url nav) \<longrightarrow> path nav = url nav \<and> query nav = Map.empty)
    \<and> (CHR ''?'' \<in> set (url nav) \<longrightarrow>
        (\<exists>kvs. list_all2 (\<lambda>p (k, v). decodeURIComponent (before_first CHR ''='' p) = Inr k
                    \<and> decodeURIComponent (before_first CHR ''='' (after_first CHR ''='' p)) = Inr v)
                 (js_split CHR ''&'' (before_first CHR ''?'' (after_first CHR ''?'' (url nav)))) kvs
             \<and> (\<forall>k v. k \<noteq> ''__proto__'' \<longrightarrow>
                  (query nav k = Some v) = (\<exists>xs ys. kvs = xs @ (k, v) # ys \<and> k \<notin> fst ` set ys))))
    \<and> (CHR ''='' \<notin> set p \<longrightarrow>
          before_first CHR ''='' p = p \<and> before_first CHR ''='' (after_first CHR ''='' p) = [])"
proof -
  have u: "encodeURI raw = Inr (url nav)"
    using assms by (rule createFromUrl_url)
  have e: "CHR ''='' \<notin> set p \<longrightarrow>
          before_first CHR ''='' p = p \<and> before_first CHR ''='' (after_first CHR ''='' p) = []"
  proof (intro impI conjI)
    assume n: "CHR ''='' \<notin> set p"
    show "before_first CHR ''='' p = p"
      by (rule before_first_absent[OF n])
    show "before_first CHR ''='' (after_first CHR ''='' p) = []"
      unfolding after_first_absent[OF n] by (simp add: before_first_def)
  qed
  show ?thesis
  proof (cases "CHR ''?'' \<in> set (url nav)")
    case False
    with assms u have "nav = \<lparr>url = url nav, path = url nav, query = Map.empty,
        refs = Map.empty, cancelled = False\<rparr>"
      by (simp add: createFromUrl_def Let_def)
    then have "path nav = url nav" "query nav = Map.empty"
      by (metis Navigation.select_convs(2), metis Navigation.select_convs(3))
    with False u e show ?thesis
      by (simp add: before_first_absent)
  next
    case True
    with assms u obtain q where
      q: "query_loop (js_split CHR ''&''
            (before_first CHR ''?'' (after_first CHR ''?'' (url nav)))) Map.empty = Inr q"
      and nav: "nav = \<lparr>url = url nav, path = before_first CHR ''?'' (url nav), query = q,
        refs = Map.empty, cancelled = False\<rparr>"
      by (auto simp: createFromUrl_def Let_def split_limit_item0 split_limit_item1 split: sum.splits)
    from nav have pq: "path nav = before_first CHR ''?'' (url nav)" "query nav = q"
      by (metis Navigation.select_convs(2), metis Navigation.select_convs(3))
    from query_loop_pairs[OF q] obtain kvs where
      l: "list_all2 (\<lambda>p (k, v). decodeURIComponent (before_first CHR ''='' p) = Inr k
                    \<and> decodeURIComponent (before_first CHR ''='' (after_first CHR ''='' p)) = Inr v)
                 (js_split CHR ''&'' (before_first CHR ''?'' (after_first CHR ''?'' (url nav)))) kvs"
      and f: "q = foldl (\<lambda>q (k, v). set_property q k v) Map.empty kvs"
      by blast
    have look: "(q k = Some v) = (\<exists>xs ys. kvs = xs @ (k, v) # ys \<and> k \<notin> fst ` set ys)"
      if "k \<noteq> ''__proto__''" for k v
      unfolding f foldl_set_property[OF that] map_of_rev_last[symmetric]
      by (simp split: option.splits)
    from True u pq l look e show ?thesis
      by auto
  qed
qed

theorem createFromUrl_structure_witness:
  "\<exists>nav. createFromUrl ''/a b?x=1&y&x=2=3'' = Inr nav
     \<and> url nav = ''/a%20b?x=1&y&x=2=3'' \<and> path nav = ''/a%20b''
     \<and> query nav ''x'' = Some ''2'' \<and> query nav ''y'' = Some ''''
     \<and> before_first CHR ''='' (after_first CHR ''='' ''y'') = ''''"
proof -
  have "case createFromUrl ''/a b?x=1&y&x=2=3'' of Inl e \<Rightarrow> False | Inr n \<Rightarrow> True"
    by code_simp
  then obtain nav where c: "createFromUrl ''/a b?x=1&y&x=2=3'' = Inr nav"
    by (cases "createFromUrl ''/a b?x=1&y&x=2=3''") auto
  have enc: "encodeURI ''/a b?x=1&y&x=2=3'' = Inr ''/a%20b?x=1&y&x=2=3''"
    by code_simp
  have q: "CHR ''?'' \<in> set ''/a%20b?x=1&y&x=2=3''"
    by simp
  have p: "before_first CHR ''?'' ''/a%20b?x=1&y&x=2=3'' = ''/a%20b''"
    by code_simp
  have pairs: "js_split CHR ''&'' (before_first CHR ''?'' (after_first CHR ''?'' ''/a%20b?x=1&y&x=2=3''))
      = [''x=1'', ''y'', ''x=2=3'']"
    by code_simp
  have d: "decodeURIComponent (before_first CHR ''='' ''x=1'') = Inr ''x''"
    "decodeURIComponent (before_first CHR ''='' (after_first CHR ''='' ''x=1'')) = Inr ''1''"
    "decodeURIComponent (before_first CHR ''='' ''y'') = Inr ''y''"
    "decodeURIComponent (before_first CHR ''='' (after_first CHR ''='' ''y'')) = Inr ''''"
    "decodeURIComponent (before_first CHR ''='' ''x=2=3'') = Inr ''x''"
    "decodeURIComponent (before_first CHR ''='' (after_first CHR ''='' ''x=2=3'')) = Inr ''2''"
    by code_simp+
  have noeq: "CHR ''='' \<notin> set ''y''"
    by simp
  note T = createFromUrl_structure[OF c, of "''y''"]
  from T enc have u: "url nav = ''/a%20b?x=1&y&x=2=3''" by simp
  from T u p have pa: "path nav = ''/a%20b''" by simp
  from T noeq have v: "before_first CHR ''='' (after_first CHR ''='' ''y'') = ''''" by blast
  from T u q obtain kvs where
    l: "list_all2 (\<lambda>p (k, v). decodeURIComponent (before_first CHR ''='' p) = Inr k
                    \<and> decodeURIComponent (before_first CHR ''='' (after_first CHR ''='' p)) = Inr v)
                 [''x=1'', ''y'', ''x=2=3''] kvs"
    and look: "\<forall>k v. k \<noteq> ''__proto__'' \<longrightarrow>
                  (query nav k = Some v) = (\<exists>xs ys. kvs = xs @ (k, v) # ys \<and> k \<notin> fst ` set ys)"
    unfolding pairs[symmetric] by auto
  from l d have kvs: "kvs = [(''x'', ''1''), (''y'', ''''), (''x'', ''2'')]"
    by (auto simp: list_all2_Cons1)
  have "\<exists>xs ys. kvs = xs @ (''x'', ''2'') # ys \<and> ''x'' \<notin> fst ` set ys"
    unfolding kvs by (intro exI[of _ "[(''x'', ''1''), (''y'', '''')]"] exI[of _ "[]"]) simp
  with look have qx: "query nav ''x'' = Some ''2''" by simp
  have "\<exists>xs ys. kvs = xs @ (''y'', '''') # ys \<and> ''y'' \<notin> fst ` set ys"
    unfolding kvs by (intro exI[of _ "[(''x'', ''1'')]"] exI[of _ "[(''x'', ''2'')]"]) simp
  with look have qy: "query nav ''y'' = Some ''''" by simp
  from c u pa qx qy v show ?thesis by blast
qed

text \<open>
  C8, as stated, fails: \<open>encodeURI\<close> escapes the \<open>%\<close> of an escape it wrote before. For
  \<open>/a b?k=c d\<close> the first pass gives the url \<open>/a%20b?k=c%20d\<close>; a second pass on that
  url gives another url, another path and another value for \<open>k\<close>.
\<close>

theorem createFromUrl_encodes_again:
  "map_sum id url (createFromUrl ''/a b?k=c d'') = Inr ''/a%20b?k=c%20d''
   \<and> map_sum id url (createFromUrl ''/a%20b?k=c%20d'') = Inr ''/a%2520b?k=c%2520d''
   \<and> map_sum id path (createFromUrl ''/a b?k=c d'') = Inr ''/a%20b''
   \<and> map_sum id path (createFromUrl ''/a%20b?k=c%20d'') = Inr ''/a%2520b''
   \<and> map_sum id (\<lambda>n. query n ''k'') (createFromUrl ''/a b?k=c d'') = Inr (Some ''c d'')
   \<and> map_sum id (\<lambda>n. query n ''k'') (createFromUrl ''/a%20b?k=c%20d'') = Inr (Some ''c%20d'')"
  by code_simp

lemma uri_encode_Cons: "uri_encode (c # s) = encode_char c @ uri_encode s"
  by (simp add: uri_encode_def)

lemma uri_encode_length: "length s \<le> length (uri_encode s)"
  by (induction s) (auto simp: uri_encode_Cons encode_char_def percent_escape_def uri_encode_def)

lemma uri_encode_fixed_iff: "(uri_encode s = s) = (\<forall>c\<in>set s. encodeURI_unescaped c)"
proof (induction s)
  case Nil
  then show ?case by (simp add: uri_encode_def)
next
  case (Cons c s)
  show ?case
  proof (cases "encodeURI_unescaped c")
    case True
    with Cons show ?thesis by (simp add: uri_encode_Cons encode_char_def)
  next
    case False
    have "uri_encode (c # s) \<noteq> c # s"
    proof
      assume "uri_encode (c # s) = c # s"
      then have "length (uri_encode (c # s)) = Suc (length s)" by simp
      moreover have "length (uri_encode (c # s)) = 3 + length (uri_encode s)"
        using False by (simp add: uri_encode_Cons encode_char_def percent_escape_def)
      ultimately show False using uri_encode_length[of s] by simp
    qed
    with False show ?thesis by simp
  qed
qed

lemma percent_is_escaped: "\<not> encodeURI_unescaped CHR ''%''"
  by (simp add: encodeURI_unescaped_def uriAlpha_def DecimalDigit_def uriMark_def uriReserved_def)

lemma escaped_gives_percent:
  "c \<in> set s \<Longrightarrow> \<not> encodeURI_unescaped c \<Longrightarrow> CHR ''%'' \<in> set (uri_encode s)"
  by (induction s) (auto simp: uri_encode_Cons encode_char_def percent_escape_def)

lemma uri_encode_twice_fixed:
  assumes "uri_encode (uri_encode u) = uri_encode u"
  shows "\<forall>c\<in>set u. encodeURI_unescaped c"
proof (rule ccontr)
  assume "\<not> (\<forall>c\<in>set u. encodeURI_unescaped c)"
  then obtain c where "c \<in> set u" "\<not> encodeURI_unescaped c" by blast
  then have "CHR ''%'' \<in> set (uri_encode u)" by (rule escaped_gives_percent)
  moreover from assms have "\<forall>c\<in>set (uri_encode u). encodeURI_unescaped c"
    by (simp add: uri_encode_fixed_iff)
  ultimately show False using percent_is_escaped by blast
qed

lemma unescaped_is_ascii: "encodeURI_unescaped c \<Longrightarrow> (of_char c :: nat) < 0x80"
  by (auto simp: encodeURI_unescaped_def uriAlpha_def DecimalDigit_def uriMark_def uriReserved_def)

lemma ascii_wellformed: "\<forall>c\<in>set s. (of_char c :: nat) < 0x80 \<Longrightarrow> utf8_ok [] s"
  by (induction s) auto

lemma encodeURI_unescaped_string:
  "\<forall>c\<in>set u. encodeURI_unescaped c \<Longrightarrow> encodeURI u = Inr u"
  using ascii_wellformed[of u] unescaped_is_ascii
  by (simp add: encodeURI_def utf8_wellformed_def uri_encode_fixed_iff)

lemma encodeURI_Inr: "encodeURI s = Inr e \<Longrightarrow> e = uri_encode s"
  by (simp add: encodeURI_def split: if_splits)

lemma uri_tokens_no_percent: "CHR ''%'' \<notin> set p \<Longrightarrow> uri_tokens p = Some (map Literal p)"
  by (induction p) auto

lemma decode_tokens_literals: "decode_tokens [] (map Literal p) = Some p"
  by (induction p) auto

lemma decodeURIComponent_no_percent: "CHR ''%'' \<notin> set p \<Longrightarrow> decodeURIComponent p = Inr p"
  by (simp add: decodeURIComponent_def uri_tokens_no_percent decode_tokens_literals)

lemma set_before_first: "set (before_first sep s) \<subseteq> set s"
  unfolding before_first_def by (auto dest: set_takeWhileD)

lemma set_after_first: "set (after_first sep s) \<subseteq> set s"
  unfolding after_first_def by (auto dest: in_set_dropD set_dropWhileD)

lemma js_split_set: "p \<in> set (js_split sep s) \<Longrightarrow> set p \<subseteq> set s"
proof (induction s arbitrary: p)
  case Nil
  then show ?case by simp
next
  case (Cons c cs)
  then show ?case
    by (cases "js_split sep cs") (auto split: if_splits, blast+)
qed

lemma query_loop_no_percent:
  "\<forall>p\<in>set pairs. CHR ''%'' \<notin> set p \<Longrightarrow> \<exists>q'. query_loop pairs q = Inr q'"
proof (induction pairs arbitrary: q)
  case Nil
  then show ?case by simp
next
  case (Cons p pairs)
  from Cons.prems have n: "CHR ''%'' \<notin> set p" by simp
  have k: "CHR ''%'' \<notin> set (before_first CHR ''='' p)"
    using n set_before_first[of "CHR ''=''" p] by blast
  have v: "CHR ''%'' \<notin> set (before_first CHR ''='' (after_first CHR ''='' p))"
    using n set_before_first[of "CHR ''=''" "after_first CHR ''='' p"] set_after_first[of "CHR ''=''" p]
    by blast
  from Cons.IH Cons.prems show ?case
    by (simp add: Let_def split_limit_item0 split_limit_item1
          decodeURIComponent_no_percent[OF k] decodeURIComponent_no_percent[OF v])
qed

lemma createFromUrl_unescaped:
  assumes "\<forall>c\<in>set u. encodeURI_unescaped c"
  shows "\<exists>n. createFromUrl u = Inr n \<and> url n = u"
proof -
  have e: "encodeURI u = Inr u" using assms by (rule encodeURI_unescaped_string)
  have np: "CHR ''%'' \<notin> set u" using assms percent_is_escaped by blast
  show ?thesis
  proof (cases "CHR ''?'' \<in> set u")
    case False
    then show ?thesis by (simp add: createFromUrl_def e)
  next
    case True
    have "\<forall>p\<in>set (js_split CHR ''&'' (before_first CHR ''?'' (after_first CHR ''?'' u))). CHR ''%'' \<notin> set p"
      using np js_split_set set_before_first[of "CHR ''?''" "after_first CHR ''?'' u"]
        set_after_first[of "CHR ''?''" u]
      by blast
    from query_loop_no_percent[OF this, of Map.empty] obtain q where
      "query_loop (js_split CHR ''&'' (before_first CHR ''?'' (after_first CHR ''?'' u))) Map.empty = Inr q"
      by blast
    with True show ?thesis
      by (simp add: createFromUrl_def e Let_def split_limit_item0 split_limit_item1)
  qed
qed

text \<open>
  C8, as amended. Applying \<open>createFromUrl\<close> to the url it produced gives the same
  navigation (url, path and query) exactly for the inputs all of whose characters
  \<open>encodeURI\<close> leaves unescaped; any other input is encoded a second time.
\<close>

theorem createFromUrl_idempotent_iff:
  "(\<exists>n. createFromUrl u = Inr n \<and> createFromUrl (url n) = Inr n)
     = (\<forall>c\<in>set u. encodeURI_unescaped c)"
proof
  assume "\<exists>n. createFromUrl u = Inr n \<and> createFromUrl (url n) = Inr n"
  then obtain n where a: "createFromUrl u = Inr n" and b: "createFromUrl (url n) = Inr n"
    by blast
  from a have "url n = uri_encode u"
    by (intro encodeURI_Inr createFromUrl_url)
  moreover from b have "url n = uri_encode (url n)"
    by (intro encodeURI_Inr createFromUrl_url)
  ultimately have "uri_encode (uri_encode u) = uri_encode u" by simp
  then show "\<forall>c\<in>set u. encodeURI_unescaped c" by (rule uri_encode_twice_fixed)
next
  assume "\<forall>c\<in>set u. encodeURI_unescaped c"
  from createFromUrl_unescaped[OF this] obtain n where "createFromUrl u = Inr n" "url n = u"
    by blast
  then show "\<exists>n. createFromUrl u = Inr n \<and> createFromUrl (url n) = Inr n"
    by auto
qed

theorem createFromUrl_idempotent_iff_witness:
  "(\<exists>n. createFromUrl ''/users/42?tab=1'' = Inr n \<and> createFromUrl (url n) = Inr n)
   \<and> \<not> (\<exists>n. createFromUrl ''/a b'' = Inr n \<and> createFromUrl (url n) = Inr n)"
proof -
  have a: "\<forall>c\<in>set ''/users/42?tab=1''. encodeURI_unescaped c"
    by code_simp
  have b: "\<not> (\<forall>c\<in>set ''/a b''. encodeURI_unescaped c)"
    by code_simp
  from createFromUrl_idempotent_iff[of "''/users/42?tab=1''"] a
    createFromUrl_idempotent_iff[of "''/a b''"] b
  show ?thesis by blast
qed

text \<open>
  Decoding undoes encoding: on a well-formed string, \<open>decodeURIComponent\<close> of the
  encoded string is the string, and cutting at a separator commutes with encoding.
\<close>

lemma hex_value_hex_digit: "n < 16 \<Longrightarrow> hex_value (hex_digit n) = Some n"
proof -
  have "\<forall>n\<in>set [0..<16]. hex_value (hex_digit n) = Some n"
    by code_simp
  then show "n < 16 \<Longrightarrow> hex_value (hex_digit n) = Some n"
    by simp
qed

lemma hex_digit_range: "hex_digit n \<in> set ''0123456789ABCDEF''"
proof -
  have "\<forall>n\<in>set [0..<16]. hex_digit n \<in> set ''0123456789ABCDEF''"
    by code_simp
  moreover have "hex_digit n = hex_digit (n mod 16)"
    by (simp add: hex_digit_def)
  ultimately show ?thesis
    by (metis atLeastLessThan_iff mod_less_divisor set_upt zero_le zero_less_numeral)
qed

lemma uri_tokens_encode_char:
  "uri_tokens (encode_char c @ s) =
     (case uri_tokens s of None \<Rightarrow> None | Some ts \<Rightarrow> Some (uri_token_of c # ts))"
proof (cases "encodeURI_unescaped c")
  case True
  then have "c \<noteq> CHR ''%''" using percent_is_escaped by auto
  with True show ?thesis by (simp add: encode_char_def uri_token_of_def split: option.splits)
next
  case False
  have d: "(of_char c :: nat) div 16 < 16"
    by (simp add: less_mult_imp_div_less)
  have "16 * ((of_char c :: nat) div 16) + (of_char c :: nat) mod 16 = of_char c"
    by simp
  with False show ?thesis
    by (simp add: encode_char_def uri_token_of_def percent_escape_def hex_value_hex_digit d split: option.splits)
qed

lemma uri_tokens_uri_encode: "uri_tokens (uri_encode s) = Some (map uri_token_of s)"
  by (induction s) (simp_all add: uri_encode_Cons uri_tokens_encode_char, simp add: uri_encode_def)


lemma utf8_continuation_high: "utf8_continuation b = Some rs \<Longrightarrow> ranges_high rs"
  by (auto simp: utf8_continuation_def ranges_high_def split: if_splits)

lemma uri_token_of_high: "0x80 \<le> (of_char c :: nat) \<Longrightarrow> uri_token_of c = Escaped (of_char c)"
  using unescaped_is_ascii[of c] by (auto simp: uri_token_of_def)

lemma decode_tokens_uri_token_of:
  "utf8_ok rs s \<Longrightarrow> ranges_high rs \<Longrightarrow> decode_tokens rs (map uri_token_of s) = Some s"
proof (induction rs s rule: utf8_ok.induct)
  case 1
  then show ?case by simp
next
  case (2 r rs)
  then show ?case by simp
next
  case (3 c cs)
  show ?case
  proof (cases "(of_char c :: nat) < 0x80")
    case True
    with 3 have d: "decode_tokens [] (map uri_token_of cs) = Some cs" by simp
    have "uri_token_of c = Literal c \<or> uri_token_of c = Escaped (of_char c)"
      by (simp add: uri_token_of_def)
    with True d show ?thesis by auto
  next
    case False
    with "3.prems" obtain rs where c: "utf8_continuation (of_char c) = Some rs" and ok: "utf8_ok rs cs"
      by (auto split: option.splits)
    from "3.IH"(2)[OF False c ok utf8_continuation_high[OF c]]
    have "decode_tokens rs (map uri_token_of cs) = Some cs" .
    with False c show ?thesis
      by (simp add: uri_token_of_high)
  qed
next
  case (4 lo hi rs c cs)
  from "4.prems" have r: "lo \<le> of_char c" "of_char c \<le> hi" "utf8_ok rs cs"
    and h: "0x80 \<le> lo" "ranges_high rs"
    by (auto simp: ranges_high_def)
  from "4.IH"[OF r(3) h(2)] r h show ?case
    by (simp add: uri_token_of_high)
qed

lemma decodeURIComponent_uri_encode:
  "utf8_wellformed s \<Longrightarrow> decodeURIComponent (uri_encode s) = Inr s"
  by (simp add: decodeURIComponent_def uri_tokens_uri_encode decode_tokens_uri_token_of
        utf8_wellformed_def ranges_high_def)

lemma separators: "separator CHR ''?''" "separator CHR ''&''" "separator CHR ''=''"
  by (simp_all add: separator_def encodeURI_unescaped_def uriReserved_def)

lemma separator_not_in_escape: "separator sep \<Longrightarrow> sep \<notin> set (percent_escape c)"
  using hex_digit_range percent_is_escaped
  by (auto simp: separator_def percent_escape_def)

lemma encode_char_separator: "separator sep \<Longrightarrow> encode_char sep = [sep]"
  by (simp add: separator_def encode_char_def)

lemma encode_char_other: "separator sep \<Longrightarrow> c \<noteq> sep \<Longrightarrow> sep \<notin> set (encode_char c)"
  using separator_not_in_escape[of sep c] by (simp add: encode_char_def)

lemma before_first_append: "sep \<notin> set xs \<Longrightarrow> before_first sep (xs @ ys) = xs @ before_first sep ys"
  by (induction xs) (auto simp: before_first_def)

lemma after_first_append: "sep \<notin> set xs \<Longrightarrow> after_first sep (xs @ ys) = after_first sep ys"
  by (induction xs) (auto simp: after_first_def)

lemma before_first_uri_encode:
  "separator sep \<Longrightarrow> before_first sep (uri_encode s) = uri_encode (before_first sep s)"
proof (induction s)
  case Nil
  then show ?case by (simp add: uri_encode_def before_first_def)
next
  case (Cons c s)
  show ?case
  proof (cases "c = sep")
    case True
    with Cons.prems show ?thesis
      by (simp add: uri_encode_Cons encode_char_separator) (simp add: before_first_def uri_encode_def)
  next
    case False
    from encode_char_other[OF Cons.prems False] Cons False show ?thesis
      by (simp add: uri_encode_Cons before_first_append) (simp add: before_first_def uri_encode_Cons)
  qed
qed

lemma after_first_uri_encode:
  "separator sep \<Longrightarrow> after_first sep (uri_encode s) = uri_encode (after_first sep s)"
proof (induction s)
  case Nil
  then show ?case by (simp add: uri_encode_def after_first_def)
next
  case (Cons c s)
  show ?case
  proof (cases "c = sep")
    case True
    with Cons.prems show ?thesis
      by (simp add: uri_encode_Cons encode_char_separator) (simp add: after_first_def)
  next
    case False
    from encode_char_other[OF Cons.prems False] Cons False show ?thesis
      by (simp add: uri_encode_Cons after_first_append) (simp add: after_first_def)
  qed
qed

lemma separator_in_uri_encode: "separator sep \<Longrightarrow> (sep \<in> set (uri_encode s)) = (sep \<in> set s)"
proof (induction s)
  case Nil
  then show ?case by (simp add: uri_encode_def)
next
  case (Cons c s)
  then show ?case
    using encode_char_other[of sep c] encode_char_separator[of sep]
    by (cases "c = sep") (auto simp: uri_encode_Cons)
qed

lemma after_first_shorter: "sep \<in> set s \<Longrightarrow> length (after_first sep s) < length s"
  by (induction s) (auto simp: after_first_def)

lemma js_split_uri_encode:
  "separator sep \<Longrightarrow> js_split sep (uri_encode s) = map uri_encode (js_split sep s)"
proof (induction "length s" arbitrary: s rule: less_induct)
  case less
  show ?case
  proof (cases "sep \<in> set s")
    case False
    with less.prems show ?thesis
      by (subst js_split_unfold, subst (2) js_split_unfold)
         (simp add: separator_in_uri_encode before_first_uri_encode)
  next
    case True
    from less.hyps[OF after_first_shorter[OF True] less.prems]
    have "js_split sep (uri_encode (after_first sep s)) = map uri_encode (js_split sep (after_first sep s))" .
    with True less.prems show ?thesis
      by (subst js_split_unfold, subst (2) js_split_unfold)
         (simp add: separator_in_uri_encode before_first_uri_encode after_first_uri_encode)
  qed
qed

lemma separator_is_ascii: "separator sep \<Longrightarrow> (of_char sep :: nat) < 0x80"
  by (simp add: separator_def unescaped_is_ascii)

lemma utf8_ok_before_first:
  "utf8_ok rs s \<Longrightarrow> ranges_high rs \<Longrightarrow> separator sep \<Longrightarrow> utf8_ok rs (before_first sep s)"
proof (induction rs s rule: utf8_ok.induct)
  case 1
  then show ?case by (simp add: before_first_def)
next
  case (2 r rs)
  then show ?case by simp
next
  case (3 c cs)
  show ?case
  proof (cases "c = sep")
    case True
    then show ?thesis by (simp add: before_first_def)
  next
    case False
    then have b: "before_first sep (c # cs) = c # before_first sep cs"
      by (simp add: before_first_def)
    show ?thesis
    proof (cases "(of_char c :: nat) < 0x80")
      case True
      with 3 show ?thesis unfolding b by simp
    next
      case False
      with "3.prems" obtain rs where c: "utf8_continuation (of_char c) = Some rs" and ok: "utf8_ok rs cs"
        by (auto split: option.splits)
      from "3.IH"(2)[OF False c ok utf8_continuation_high[OF c] "3.prems"(3)] False c
      show ?thesis unfolding b by simp
    qed
  qed
next
  case (4 lo hi rs c cs)
  from "4.prems" have r: "lo \<le> of_char c" "of_char c \<le> hi" "utf8_ok rs cs"
    and h: "0x80 \<le> lo" "ranges_high rs"
    by (auto simp: ranges_high_def)
  from r h separator_is_ascii[OF "4.prems"(3)] have "c \<noteq> sep" by auto
  then have b: "before_first sep (c # cs) = c # before_first sep cs"
    by (simp add: before_first_def)
  from "4.IH"[OF r(3) h(2) "4.prems"(3)] r show ?case unfolding b by simp
qed

lemma utf8_ok_after_first:
  "utf8_ok rs s \<Longrightarrow> ranges_high rs \<Longrightarrow> separator sep \<Longrightarrow> utf8_ok [] (after_first sep s)"
proof (induction rs s rule: utf8_ok.induct)
  case 1
  then show ?case by (simp add: after_first_def)
next
  case (2 r rs)
  then show ?case by simp
next
  case (3 c cs)
  show ?case
  proof (cases "c = sep")
    case True
    with "3.prems" separator_is_ascii[OF "3.prems"(3)] show ?thesis
      by (simp add: after_first_def)
  next
    case False
    then have b: "after_first sep (c # cs) = after_first sep cs"
      by (simp add: after_first_def)
    show ?thesis
    proof (cases "(of_char c :: nat) < 0x80")
      case True
      with 3 show ?thesis unfolding b by simp
    next
      case False
      with "3.prems" obtain rs where c: "utf8_continuation (of_char c) = Some rs" and ok: "utf8_ok rs cs"
        by (auto split: option.splits)
      from "3.IH"(2)[OF False c ok utf8_continuation_high[OF c] "3.prems"(3)]
      show ?thesis unfolding b .
    qed
  qed
next
  case (4 lo hi rs c cs)
  from "4.prems" have r: "lo \<le> of_char c" "of_char c \<le> hi" "utf8_ok rs cs"
    and h: "0x80 \<le> lo" "ranges_high rs"
    by (auto simp: ranges_high_def)
  from r h separator_is_ascii[OF "4.prems"(3)] have "c \<noteq> sep" by auto
  then have b: "after_first sep (c # cs) = after_first sep cs"
    by (simp add: after_first_def)
  from "4.IH"[OF r(3) h(2) "4.prems"(3)] show ?case unfolding b .
qed

lemma wellformed_before_first:
  "utf8_wellformed s \<Longrightarrow> separator sep \<Longrightarrow> utf8_wellformed (before_first sep s)"
  unfolding utf8_wellformed_def by (rule utf8_ok_before_first) (simp_all add: ranges_high_def)

lemma wellformed_after_first:
  "utf8_wellformed s \<Longrightarrow> separator sep \<Longrightarrow> utf8_wellformed (after_first sep s)"
  unfolding utf8_wellformed_def by (rule utf8_ok_after_first[of "[]"]) (simp_all add: ranges_high_def)

lemma wellformed_js_split:
  "utf8_wellformed s \<Longrightarrow> separator sep \<Longrightarrow> \<forall>p\<in>set (js_split sep s). utf8_wellformed p"
proof (induction "length s" arbitrary: s rule: less_induct)
  case less
  show ?case
  proof (cases "sep \<in> set s")
    case False
    with less.prems show ?thesis
      by (subst js_split_unfold) (simp add: wellformed_before_first)
  next
    case True
    from less.hyps[OF after_first_shorter[OF True] wellformed_after_first[OF less.prems] less.prems(2)]
    have "\<forall>p\<in>set (js_split sep (after_first sep s)). utf8_wellformed p" .
    with True less.prems show ?thesis
      by (subst js_split_unfold) (simp add: wellformed_before_first)
  qed
qed

lemma query_loop_uri_encode:
  "\<forall>p\<in>set pairs. utf8_wellformed p \<Longrightarrow>
     query_loop (map uri_encode pairs) q
       = Inr (foldl (\<lambda>q (k, v). set_property q k v) q (map raw_pair pairs))"
proof (induction pairs arbitrary: q)
  case Nil
  then show ?case by simp
next
  case (Cons p pairs)
  from Cons.prems have w: "utf8_wellformed p" by simp
  have k: "decodeURIComponent (before_first CHR ''='' (uri_encode p)) = Inr (before_first CHR ''='' p)"
    using w by (simp add: before_first_uri_encode separators decodeURIComponent_uri_encode
          wellformed_before_first)
  have v: "decodeURIComponent (before_first CHR ''='' (after_first CHR ''='' (uri_encode p)))
      = Inr (before_first CHR ''='' (after_first CHR ''='' p))"
    using w by (simp add: before_first_uri_encode after_first_uri_encode separators
          decodeURIComponent_uri_encode wellformed_before_first wellformed_after_first)
  from Cons.IH Cons.prems show ?case
    by (simp add: Let_def split_limit_item0 split_limit_item1 k v raw_pair_def)
qed

text \<open>
  \<open>createFromUrl\<close> throws exactly on the strings that are not well-formed. On a
  well-formed string it returns the encoded url, the encoded text before the first \<open>?\<close>
  as path, and a query built from the pairs of the input text itself: decoding undoes
  the encoding of the first step, so an escape that the input already contained stays
  an escape in the keys and values.
\<close>

lemma createFromUrl_wellformed:
  assumes "utf8_wellformed raw"
  shows "createFromUrl raw =
     Inr \<lparr>url = uri_encode raw,
          path = uri_encode (before_first CHR ''?'' raw),
          query = (if CHR ''?'' \<in> set raw
                   then foldl (\<lambda>q (k, v). set_property q k v) Map.empty
                          (map raw_pair
                             (js_split CHR ''&'' (before_first CHR ''?'' (after_first CHR ''?'' raw))))
                   else Map.empty),
          refs = Map.empty, cancelled = False\<rparr>"
proof -
  have e: "encodeURI raw = Inr (uri_encode raw)"
    using assms by (simp add: encodeURI_def)
  show ?thesis
  proof (cases "CHR ''?'' \<in> set raw")
    case False
    then show ?thesis
      by (simp add: createFromUrl_def e separator_in_uri_encode separators before_first_absent Let_def)
  next
    case True
    have w: "\<forall>p\<in>set (js_split CHR ''&'' (before_first CHR ''?'' (after_first CHR ''?'' raw))).
        utf8_wellformed p"
      using assms by (intro wellformed_js_split wellformed_before_first wellformed_after_first separators)
    have "js_split CHR ''&'' (before_first CHR ''?'' (after_first CHR ''?'' (uri_encode raw)))
        = map uri_encode (js_split CHR ''&'' (before_first CHR ''?'' (after_first CHR ''?'' raw)))"
      by (simp add: before_first_uri_encode after_first_uri_encode js_split_uri_encode separators)
    with True query_loop_uri_encode[OF w, of Map.empty] show ?thesis
      by (simp add: createFromUrl_def e separator_in_uri_encode separators Let_def
            split_limit_item0 split_limit_item1 before_first_uri_encode)
  qed
qed

lemma createFromUrl_throws: "\<not> utf8_wellformed raw \<Longrightarrow> createFromUrl raw = Inl URIError"
  by (simp add: createFromUrl_def encodeURI_def)

end
